theory Spec2Isabelle
  imports Complex_Main "HOL-Library.AList" "HOL-Library.Multiset"
begin

section \<open>JavaScript numbers and counting loops\<close>

text \<open>
  The layer keeps tile coordinates, tile sizes and pan deltas in JavaScript numbers.
  The model takes them integer valued (\<^typ>\<open>int\<close>). The one operation of the source
  that leaves the integers is \<^verbatim>\<open>%\<close> with divisor zero, whose result is NaN; the pan
  accumulator is therefore a \<open>num\<close>: an integer or NaN. Every comparison with NaN is
  false and every sum with NaN is NaN.
\<close>

datatype num = Num int | NaN

text \<open>\<^verbatim>\<open>a % b\<close>: the remainder has the sign of the dividend; NaN for \<open>b = 0\<close>.\<close>

definition js_rem :: "int \<Rightarrow> int \<Rightarrow> num" where
  "js_rem a b = (if b = 0 then NaN else Num (sgn a * (\<bar>a\<bar> mod \<bar>b\<bar>)))"

fun num_add :: "num \<Rightarrow> int \<Rightarrow> num" where
  "num_add (Num a) d = Num (a + d)"
| "num_add NaN d = NaN"

fun num_ge :: "num \<Rightarrow> int \<Rightarrow> bool" where
  "num_ge (Num a) t = (t \<le> a)"
| "num_ge NaN t = False"

fun num_le :: "num \<Rightarrow> int \<Rightarrow> bool" where
  "num_le (Num a) t = (a \<le> t)"
| "num_le NaN t = False"

text \<open>
  \<^verbatim>\<open>for(var i = i0; i < n; ++i) body(i)\<close> with a bound that the body does not change.
\<close>

function forLoop :: "int \<Rightarrow> int \<Rightarrow> (int \<Rightarrow> 's \<Rightarrow> 's) \<Rightarrow> 's \<Rightarrow> 's" where
  "forLoop i n body s = (if i < n then forLoop (i + 1) n body (body i s) else s)"
  by pat_completeness auto
termination
  by (relation "measure (\<lambda>(i, n, body, s). nat (n - i))") auto

declare forLoop.simps [simp del]

section \<open>Collaborators: property bags, tilesets, the owning map\<close>

type_synonym vec = "int \<times> int"

text \<open>
  A property bag (of a tile, a tileset, the layer or the map). The code only asks
  whether \<^verbatim>\<open>interactive\<close> and \<^verbatim>\<open>interactiveTiles\<close> are defined
  (\<^verbatim>\<open>!== undefined\<close>) and whether they are truthy, so each is \<open>None\<close> (undefined) or
  \<open>Some b\<close> with \<open>b\<close> the truthiness of the stored value. Hit areas and collision types
  are opaque values, named by numbers; \<open>None\<close> stands for a missing (falsy) one.
\<close>

record props =
  interactive :: "bool option"
  interactiveTiles :: "bool option"
  hitArea :: "nat option"
  tileHitArea :: "nat option"
  isCollidable :: bool
  type_p :: "nat option"

text \<open>
  Modelled from the spec: the tileset object (section 4.4, TilesetResolver) is not among
  the sources. It carries its tile size, its tile offset, its properties and the two
  lookups \<^verbatim>\<open>getTileTexture\<close> and \<^verbatim>\<open>getTileProperties\<close>; textures are opaque.
\<close>

record tileset =
  ts_tileSize :: vec
  tileoffset :: vec
  ts_properties :: props
  getTileTexture :: "nat \<Rightarrow> nat"
  getTileProperties :: "nat \<Rightarrow> props"

text \<open>
  Modelled from the spec: the owning map (\<^verbatim>\<open>this.parent\<close>) is not among the sources.
  The layer reads its size in tiles, its tile size, its scaled tile size, its pixel
  position, its orientation string, its properties and \<^verbatim>\<open>getTileset\<close>, which
  yields no tileset for an id outside every tileset's range.
\<close>

record tiledmap =
  m_size :: vec
  tileSize :: vec
  scaledTileSize :: vec
  m_position :: vec
  orientation :: string
  m_properties :: props
  getTileset :: "nat \<Rightarrow> tileset option"

section \<open>The layer's state\<close>

text \<open>
  Modelled from the spec: the visual node \<^verbatim>\<open>gf.Tile\<close> is not among the sources. The
  model keeps the fields and setters the layer uses: \<^verbatim>\<open>setTexture\<close>,
  \<^verbatim>\<open>setPosition\<close>, \<^verbatim>\<open>setInteractive\<close>, \<^verbatim>\<open>collisionType\<close>, \<^verbatim>\<open>visible\<close>,
  \<^verbatim>\<open>hitArea\<close>, whether the seven pointer callbacks (click, mousedown, ...) are
  assigned (\<open>handlers\<close>), and whether \<^verbatim>\<open>enablePhysics\<close> was called last
  (\<open>physics\<close>) or \<^verbatim>\<open>disablePhysics\<close>. Pixel positions are rationals, since the
  isometric projection halves the tile size.
\<close>

record tile =
  texture :: nat
  position :: "rat \<times> rat"
  t_interactive :: bool
  collisionType :: "nat option"
  visible :: bool
  t_hitArea :: "nat option"
  handlers :: bool
  physics :: bool

record rect =
  r_x :: int
  r_y :: int
  r_width :: int
  r_height :: int
  r_left :: int
  r_right :: int
  r_top :: int
  r_bottom :: int

record buffered =
  b_left :: bool
  b_right :: bool
  b_top :: bool
  b_bottom :: bool

text \<open>
  \<^verbatim>\<open>this.tiles\<close> is an object keyed by column whose values are objects keyed by row,
  each entry a tile or null: association lists in insertion order. Tiles are objects
  with identity: a tile is the index of its record in \<open>heap\<close>, the list of all tiles
  ever constructed by \<^verbatim>\<open>new gf.Tile\<close>.
\<close>

type_synonym column = "(int \<times> nat option) list"
type_synonym grid = "(int \<times> column) list"

record layer =
  tileIds :: "nat list"
  tiles :: grid
  properties :: props
  l_size :: vec
  tilePool :: "nat list"
  l_buffered :: buffered
  panDelta :: "num \<times> num"
  rendered :: rect
  children :: "nat list"
  heap :: "tile list"

text \<open>
  The constructor \<^verbatim>\<open>gf.TiledLayer\<close>: no tiles, empty pool, zero rectangle. The
  four derived edges of the rectangle are unset in the source until
  \<^verbatim>\<open>_updateRenderSq\<close> runs; the model holds 0 there. No loop body reads them before:
  width and height are 0 until the first shift, which ends with \<^verbatim>\<open>_updateRenderSq\<close>.
\<close>

definition TiledLayer :: "nat list \<Rightarrow> props \<Rightarrow> vec \<Rightarrow> layer" where
  "TiledLayer data ps sz =
     \<lparr>tileIds = data, tiles = [], properties = ps, l_size = sz, tilePool = [],
      l_buffered = \<lparr>b_left = False, b_right = False, b_top = False, b_bottom = False\<rparr>,
      panDelta = (Num 0, Num 0),
      rendered = \<lparr>r_x = 0, r_y = 0, r_width = 0, r_height = 0,
                  r_left = 0, r_right = 0, r_top = 0, r_bottom = 0\<rparr>,
      children = [], heap = []\<rparr>"

subsection \<open>Reading and writing the grid\<close>

text \<open>\<^verbatim>\<open>this.tiles[x] && this.tiles[x][y]\<close>: the tile there, if any.\<close>

definition tile_at :: "grid \<Rightarrow> int \<Rightarrow> int \<Rightarrow> nat option" where
  "tile_at g x y =
     (case map_of g x of None \<Rightarrow> None
      | Some col \<Rightarrow> (case map_of col y of None \<Rightarrow> None | Some t \<Rightarrow> t))"

text \<open>
  \<^verbatim>\<open>if(!this.tiles[x]) this.tiles[x] = {}; this.tiles[x][y] = v\<close>. The source
  assigns null only where the column exists, so the first statement is idle there.
\<close>

definition set_entry :: "grid \<Rightarrow> int \<Rightarrow> int \<Rightarrow> nat option \<Rightarrow> grid" where
  "set_entry g x y v =
     AList.update x
       (AList.update y v (case map_of g x of None \<Rightarrow> [] | Some col \<Rightarrow> col)) g"

text \<open>The tiles of one column and of the whole grid, in enumeration order.\<close>

definition column_nodes :: "column \<Rightarrow> nat list" where
  "column_nodes col = concat (map (\<lambda>(y, t). case t of None \<Rightarrow> [] | Some n \<Rightarrow> [n]) col)"

definition live_nodes :: "grid \<Rightarrow> nat list" where
  "live_nodes g = concat (map (\<lambda>(x, col). column_nodes col) g)"

text \<open>Applying a field update to one tile object.\<close>

definition upd_tile :: "nat \<Rightarrow> (tile \<Rightarrow> tile) \<Rightarrow> tile list \<Rightarrow> tile list" where
  "upd_tile n f h = (if n < length h then h[n := f (h ! n)] else h)"

text \<open>\<^verbatim>\<open>this.tileIds[id]\<close>: undefined outside the array.\<close>

definition lookup_id :: "nat list \<Rightarrow> int \<Rightarrow> nat option" where
  "lookup_id ids i = (if 0 \<le> i \<and> i < int (length ids) then Some (ids ! nat i) else None)"

section \<open>The layer's operations\<close>

subsection \<open>\<^verbatim>\<open>clearTiles\<close>\<close>

text \<open>
  The body of the inner loop for a tile that is there: hide it, disable its physics,
  push it on the pool.
\<close>

definition free_tile :: "nat \<Rightarrow> layer \<Rightarrow> layer" where
  "free_tile n s =
     s\<lparr>heap := upd_tile n (\<lambda>t. t\<lparr>visible := False, physics := False\<rparr>) (heap s),
       tilePool := tilePool s @ [n]\<rparr>"

definition clear_column :: "column \<Rightarrow> layer \<Rightarrow> layer" where
  "clear_column col s =
     fold (\<lambda>(y, t) s'. case t of None \<Rightarrow> s' | Some n \<Rightarrow> free_tile n s') col s"

text \<open>
  Every row key is deleted and every column key is kept. The enumeration order of
  \<^verbatim>\<open>for ... in\<close> is left to the engine; the model enumerates in insertion order.
\<close>

definition clearTiles :: "layer \<Rightarrow> layer" where
  "clearTiles s =
     (fold (\<lambda>(x, col) s'. clear_column col s') (tiles s) s)
       \<lparr>tiles := map (\<lambda>(x, col). (x, [])) (tiles s)\<rparr>"

subsection \<open>\<^verbatim>\<open>_getInteractive\<close>\<close>

definition defines_interactive :: "props \<Rightarrow> bool" where
  "defines_interactive p = (interactive p \<noteq> None \<or> interactiveTiles p \<noteq> None)"

text \<open>\<^verbatim>\<open>!!(v.interactive || v.interactiveTiles)\<close>\<close>

definition interactive_value :: "props \<Rightarrow> bool" where
  "interactive_value v = (interactive v = Some True \<or> interactiveTiles v = Some True)"

definition getInteractive :: "tiledmap \<Rightarrow> layer \<Rightarrow> tileset option \<Rightarrow> props \<Rightarrow> bool" where
  "getInteractive m s set_opt p =
     (let v =
        (if defines_interactive p then Some p
         else if (case set_opt of None \<Rightarrow> False
                  | Some ts \<Rightarrow> defines_interactive (ts_properties ts))
           then map_option ts_properties set_opt
         else if defines_interactive (properties s) then Some (properties s)
         else if defines_interactive (m_properties m) then Some (m_properties m)
         else None)
      in case v of Some src \<Rightarrow> interactive_value src | None \<Rightarrow> False)"

subsection \<open>\<^verbatim>\<open>moveTileSprite\<close>\<close>

text \<open>
  The tile id at the target and its tileset: \<^verbatim>\<open>this.tileIds[toTileX + toTileY *
  this.size.x]\<close> and \<^verbatim>\<open>this.parent.getTileset(tileId)\<close>. An undefined id lies in no
  tileset's range.
\<close>

definition resolve :: "tiledmap \<Rightarrow> layer \<Rightarrow> int \<Rightarrow> int \<Rightarrow> (nat \<times> tileset) option" where
  "resolve m s toTileX toTileY =
     (case lookup_id (tileIds s) (toTileX + toTileY * fst (l_size s)) of
        None \<Rightarrow> None
      | Some tileId \<Rightarrow> map_option (Pair tileId) (getTileset m tileId))"

text \<open>The pixel position of a tile, isometric or orthogonal.\<close>

definition tile_position :: "tiledmap \<Rightarrow> tileset \<Rightarrow> int \<Rightarrow> int \<Rightarrow> rat \<times> rat" where
  "tile_position m ts toTileX toTileY =
     (if orientation m = ''isometric'' then
        (of_int toTileX * (of_int (fst (tileSize m)) / 2)
           - of_int toTileY * (of_int (fst (tileSize m)) / 2)
           + of_int (fst (tileSize m) - fst (ts_tileSize ts))
           + of_int (fst (tileoffset ts)),
         of_int toTileY * (of_int (snd (tileSize m)) / 2)
           + of_int toTileX * (of_int (snd (tileSize m)) / 2)
           + of_int (snd (tileSize m) - snd (ts_tileSize ts))
           + of_int (snd (tileoffset ts)))
      else
        (of_int (toTileX * fst (tileSize m) + fst (tileoffset ts)),
         of_int (toTileY * snd (tileSize m) + snd (tileoffset ts))))"

text \<open>
  The tile to bind: the one at the source coordinate, which is set to null there;
  otherwise the last of the pool; otherwise a new one, added as a child (its infinite
  mass, which the layer never reads, is left out). The result is the tile and the
  state.
\<close>

definition take_tile :: "int \<Rightarrow> int \<Rightarrow> nat \<Rightarrow> layer \<Rightarrow> nat \<times> layer" where
  "take_tile fromTileX fromTileY tex s =
     (case tile_at (tiles s) fromTileX fromTileY of
        Some t \<Rightarrow> (t, s\<lparr>tiles := set_entry (tiles s) fromTileX fromTileY None\<rparr>)
      | None \<Rightarrow>
          (if tilePool s \<noteq> [] then (last (tilePool s), s\<lparr>tilePool := butlast (tilePool s)\<rparr>)
           else (length (heap s),
                 s\<lparr>heap := heap s @
                      [\<lparr>texture = tex, position = (0, 0), t_interactive = False,
                        collisionType = None, visible = True, t_hitArea = None,
                        handlers = False, physics = False\<rparr>],
                   children := children s @ [length (heap s)]\<rparr>)))"

text \<open>The assignments to the tile, from \<^verbatim>\<open>enablePhysics\<close> to the callbacks.\<close>

definition bind_tile ::
  "props \<Rightarrow> nat \<Rightarrow> rat \<times> rat \<Rightarrow> bool \<Rightarrow> nat option \<Rightarrow> tile \<Rightarrow> tile" where
  "bind_tile p tex pos interact hit t =
     (let t1 = (if isCollidable p then t\<lparr>physics := True\<rparr> else t);
          t2 = t1\<lparr>texture := tex, position := pos, t_interactive := interact,
                  collisionType := type_p p, visible := True, t_hitArea := hit\<rparr>
      in if interact then t2\<lparr>handlers := True\<rparr> else t2)"

text \<open>
  \<^verbatim>\<open>moveTileSprite\<close> returns the bound tile, or nothing when the tile id has no
  tileset; no caller in the layer uses the result, and the model returns the state.
\<close>

definition moveTileSprite :: "tiledmap \<Rightarrow> int \<Rightarrow> int \<Rightarrow> int \<Rightarrow> int \<Rightarrow> layer \<Rightarrow> layer" where
  "moveTileSprite m fromTileX fromTileY toTileX toTileY s =
     (case resolve m s toTileX toTileY of
        None \<Rightarrow>
          (case tile_at (tiles s) fromTileX fromTileY of
             None \<Rightarrow> s
           | Some t \<Rightarrow>
               s\<lparr>tiles := set_entry (tiles s) fromTileX fromTileY None,
                 heap := upd_tile t (\<lambda>u. u\<lparr>visible := False\<rparr>) (heap s),
                 tilePool := tilePool s @ [t]\<rparr>)
      | Some (tileId, ts) \<Rightarrow>
          (let tex = getTileTexture ts tileId;
               p = getTileProperties ts tileId;
               hit = (case hitArea p of Some h \<Rightarrow> Some h
                      | None \<Rightarrow> tileHitArea (ts_properties ts));
               interact = getInteractive m s (Some ts) p;
               pos = tile_position m ts toTileX toTileY;
               (t, s1) = take_tile fromTileX fromTileY tex s;
               s2 = s1\<lparr>heap := upd_tile t (bind_tile p tex pos interact hit) (heap s1)\<rparr>
           in s2\<lparr>tiles := set_entry (tiles s2) toTileX toTileY (Some t)\<rparr>))"

subsection \<open>\<^verbatim>\<open>renderTiles\<close> and the four shifts\<close>

definition updateRenderSq :: "rect \<Rightarrow> rect" where
  "updateRenderSq r =
     r\<lparr>r_left := r_x r, r_right := r_x r + r_width r - 1,
       r_top := r_y r, r_bottom := r_y r + r_height r - 1\<rparr>"

definition renderTiles :: "tiledmap \<Rightarrow> int \<Rightarrow> int \<Rightarrow> int \<Rightarrow> int \<Rightarrow> layer \<Rightarrow> layer" where
  "renderTiles m startX0 startY0 numX numY s =
     (let s1 = clearTiles s;
          startX = (if startX0 < 0 then 0 else startX0);
          startY = (if startY0 < 0 then 0 else startY0);
          endX = (if startX + numX \<le> fst (m_size m) then startX + numX
                  else fst (m_size m) - startX);
          endY = (if startY + numY \<le> snd (m_size m) then startY + numY
                  else snd (m_size m) - startY);
          s2 = forLoop startX endX
                 (\<lambda>x. forLoop startY endY (\<lambda>y. moveTileSprite m x y x y)) s1
      in s2\<lparr>rendered := updateRenderSq
                ((rendered s2)\<lparr>r_x := startX, r_y := startY,
                   r_width := endX - startX, r_height := endY - startY\<rparr>),
             l_buffered := \<lparr>b_left = False, b_right = False, b_top = False, b_bottom = False\<rparr>,
             panDelta := (js_rem (fst (m_position m)) (fst (scaledTileSize m)),
                          js_rem (snd (m_position m)) (snd (scaledTileSize m)))\<rparr>)"

text \<open>
  The four shifts. Each loop runs up to the height (or width) the rectangle has when
  the loop starts; its body reads the rectangle from the current state, which
  \<^verbatim>\<open>moveTileSprite\<close> leaves as it is.
\<close>

definition renderLeft :: "tiledmap \<Rightarrow> bool \<Rightarrow> layer \<Rightarrow> layer" where
  "renderLeft m forceNew s =
     (let s1 = forLoop 0 (r_height (rendered s))
                 (\<lambda>i s'. moveTileSprite m
                    (if forceNew then - 1 else r_right (rendered s'))
                    (if forceNew then - 1 else r_top (rendered s') + i)
                    (r_left (rendered s') - 1)
                    (r_top (rendered s') + i) s') s;
          r1 = (rendered s1)\<lparr>r_x := r_x (rendered s1) - 1\<rparr>;
          r2 = (if forceNew then r1\<lparr>r_width := r_width r1 + 1\<rparr> else r1)
      in s1\<lparr>rendered := updateRenderSq r2\<rparr>)"

definition renderRight :: "tiledmap \<Rightarrow> bool \<Rightarrow> layer \<Rightarrow> layer" where
  "renderRight m forceNew s =
     (let s1 = forLoop 0 (r_height (rendered s))
                 (\<lambda>i s'. moveTileSprite m
                    (if forceNew then - 1 else r_left (rendered s'))
                    (if forceNew then - 1 else r_top (rendered s') + i)
                    (r_right (rendered s') + 1)
                    (r_top (rendered s') + i) s') s;
          r1 = (if \<not> forceNew then (rendered s1)\<lparr>r_x := r_x (rendered s1) + 1\<rparr>
                else rendered s1);
          r2 = (if forceNew then r1\<lparr>r_width := r_width r1 + 1\<rparr> else r1)
      in s1\<lparr>rendered := updateRenderSq r2\<rparr>)"

definition renderUp :: "tiledmap \<Rightarrow> bool \<Rightarrow> layer \<Rightarrow> layer" where
  "renderUp m forceNew s =
     (let s1 = forLoop 0 (r_width (rendered s))
                 (\<lambda>i s'. moveTileSprite m
                    (if forceNew then - 1 else r_left (rendered s') + i)
                    (if forceNew then - 1 else r_bottom (rendered s'))
                    (r_left (rendered s') + i)
                    (r_top (rendered s') - 1) s') s;
          r1 = (rendered s1)\<lparr>r_y := r_y (rendered s1) - 1\<rparr>;
          r2 = (if forceNew then r1\<lparr>r_height := r_height r1 + 1\<rparr> else r1)
      in s1\<lparr>rendered := updateRenderSq r2\<rparr>)"

definition renderDown :: "tiledmap \<Rightarrow> bool \<Rightarrow> layer \<Rightarrow> layer" where
  "renderDown m forceNew s =
     (let s1 = forLoop 0 (r_width (rendered s))
                 (\<lambda>i s'. moveTileSprite m
                    (if forceNew then - 1 else r_left (rendered s') + i)
                    (if forceNew then - 1 else r_top (rendered s'))
                    (r_left (rendered s') + i)
                    (r_bottom (rendered s') + 1) s') s;
          r1 = (if \<not> forceNew then (rendered s1)\<lparr>r_y := r_y (rendered s1) + 1\<rparr>
                else rendered s1);
          r2 = (if forceNew then r1\<lparr>r_height := r_height r1 + 1\<rparr> else r1)
      in s1\<lparr>rendered := updateRenderSq r2\<rparr>)"

subsection \<open>\<^verbatim>\<open>pan\<close>\<close>

definition add_panX :: "int \<Rightarrow> layer \<Rightarrow> layer" where
  "add_panX d s = s\<lparr>panDelta := (num_add (fst (panDelta s)) d, snd (panDelta s))\<rparr>"

definition add_panY :: "int \<Rightarrow> layer \<Rightarrow> layer" where
  "add_panY d s = s\<lparr>panDelta := (fst (panDelta s), num_add (snd (panDelta s)) d)\<rparr>"

text \<open>
  The four \<^verbatim>\<open>while\<close> loops. Each runs forever when the scaled tile size is not
  positive and its condition holds, so each yields an optional state.
\<close>

partial_function (option) pan_while_left :: "tiledmap \<Rightarrow> layer \<Rightarrow> layer option" where
  "pan_while_left m s =
     (if num_ge (fst (panDelta s)) (fst (scaledTileSize m))
      then pan_while_left m (add_panX (- fst (scaledTileSize m)) (renderLeft m False s))
      else Some s)"

partial_function (option) pan_while_right :: "tiledmap \<Rightarrow> layer \<Rightarrow> layer option" where
  "pan_while_right m s =
     (if num_le (fst (panDelta s)) (- fst (scaledTileSize m))
      then pan_while_right m (add_panX (fst (scaledTileSize m)) (renderRight m False s))
      else Some s)"

partial_function (option) pan_while_up :: "tiledmap \<Rightarrow> layer \<Rightarrow> layer option" where
  "pan_while_up m s =
     (if num_ge (snd (panDelta s)) (snd (scaledTileSize m))
      then pan_while_up m (add_panY (- snd (scaledTileSize m)) (renderUp m False s))
      else Some s)"

partial_function (option) pan_while_down :: "tiledmap \<Rightarrow> layer \<Rightarrow> layer option" where
  "pan_while_down m s =
     (if num_le (snd (panDelta s)) (- snd (scaledTileSize m))
      then pan_while_down m (add_panY (snd (scaledTileSize m)) (renderDown m False s))
      else Some s)"

declare pan_while_left.simps [code]
declare pan_while_right.simps [code]
declare pan_while_up.simps [code]
declare pan_while_down.simps [code]

text \<open>The buffering step: at most one edge per call, in the order of the source.\<close>

definition pan_buffer :: "tiledmap \<Rightarrow> int \<Rightarrow> int \<Rightarrow> layer \<Rightarrow> layer" where
  "pan_buffer m dx dy s =
     (if dx > 0 \<and> \<not> b_left (l_buffered s)
        then renderLeft m True (s\<lparr>l_buffered := (l_buffered s)\<lparr>b_left := True\<rparr>\<rparr>)
      else if dx < 0 \<and> \<not> b_right (l_buffered s)
        then renderRight m True (s\<lparr>l_buffered := (l_buffered s)\<lparr>b_right := True\<rparr>\<rparr>)
      else if dy > 0 \<and> \<not> b_top (l_buffered s)
        then renderUp m True (s\<lparr>l_buffered := (l_buffered s)\<lparr>b_top := True\<rparr>\<rparr>)
      else if dy < 0 \<and> \<not> b_bottom (l_buffered s)
        then renderDown m True (s\<lparr>l_buffered := (l_buffered s)\<lparr>b_bottom := True\<rparr>\<rparr>)
      else s)"

definition pan :: "tiledmap \<Rightarrow> int \<Rightarrow> int \<Rightarrow> layer \<Rightarrow> layer option" where
  "pan m dx dy s =
     Option.bind (pan_while_left m (pan_buffer m dx dy (add_panY dy (add_panX dx s))))
       (\<lambda>s1. Option.bind (pan_while_right m s1)
         (\<lambda>s2. Option.bind (pan_while_up m s2) (pan_while_down m)))"

text \<open>A renderTiles call followed by pan calls, as the host makes them.\<close>

fun pans :: "tiledmap \<Rightarrow> (int \<times> int) list \<Rightarrow> layer \<Rightarrow> layer option" where
  "pans m [] s = Some s"
| "pans m ((dx, dy) # ds) s = Option.bind (pan m dx dy s) (pans m ds)"

section \<open>The properties\<close>

subsection \<open>Conservation of tiles\<close>

text \<open>
  No key occurs twice in the grid object or in one of its columns, as in any
  JavaScript object.
\<close>

definition wf_grid :: "grid \<Rightarrow> bool" where
  "wf_grid g = (distinct (map fst g) \<and> list_all (\<lambda>(x, col). distinct (map fst col)) g)"

definition opt_nodes :: "nat option \<Rightarrow> nat list" where
  "opt_nodes v = (case v of None \<Rightarrow> [] | Some n \<Rightarrow> [n])"

text \<open>
  Every tile ever constructed (\<open>0, ..., length heap - 1\<close>) occurs exactly once in the
  live grid and the pool taken together.
\<close>

definition conserved :: "layer \<Rightarrow> bool" where
  "conserved s = (wf_grid (tiles s) \<and>
     mset (live_nodes (tiles s)) + mset (tilePool s) = mset [0..<length (heap s)])"

text \<open>The numbers of live, pooled and constructed tiles.\<close>

definition census :: "layer \<Rightarrow> nat \<times> nat \<times> nat" where
  "census s = (length (live_nodes (tiles s)), length (tilePool s), length (heap s))"

subsection \<open>The window\<close>

definition occupied :: "layer \<Rightarrow> int \<times> int \<Rightarrow> bool" where
  "occupied s c = (tile_at (tiles s) (fst c) (snd c) \<noteq> None)"

definition in_rect :: "rect \<Rightarrow> int \<times> int \<Rightarrow> bool" where
  "in_rect r c = (r_x r \<le> fst c \<and> fst c < r_x r + r_width r \<and>
                  r_y r \<le> snd c \<and> snd c < r_y r + r_height r)"

text \<open>The derived edges are the ones \<^verbatim>\<open>_updateRenderSq\<close> computes.\<close>

definition rect_ok :: "rect \<Rightarrow> bool" where
  "rect_ok r = (r_left r = r_x r \<and> r_right r = r_x r + r_width r - 1 \<and>
                r_top r = r_y r \<and> r_bottom r = r_y r + r_height r - 1)"

text \<open>Every coordinate with a live tile lies in the rendered rectangle.\<close>

definition contained :: "layer \<Rightarrow> bool" where
  "contained s = (\<forall>x y. tile_at (tiles s) x y \<noteq> None \<longrightarrow> in_rect (rendered s) (x, y))"

text \<open>A window of at least one column and one row that contains the live tiles.\<close>

definition window_inv :: "layer \<Rightarrow> bool" where
  "window_inv s = (rect_ok (rendered s) \<and> 1 \<le> r_width (rendered s) \<and>
                   1 \<le> r_height (rendered s) \<and> contained s)"

subsection \<open>The interactive flag, as the specification words it\<close>

text \<open>
  The first source of the list that defines \<^verbatim>\<open>interactive\<close> or
  \<^verbatim>\<open>interactiveTiles\<close> decides, by the truthiness of the two taken together; the
  sources after it are not looked at. No source defines either: false.
\<close>

fun first_defined :: "props list \<Rightarrow> bool" where
  "first_defined [] = False"
| "first_defined (p # ps) =
     (case (interactive p, interactiveTiles p) of
        (None, None) \<Rightarrow> first_defined ps
      | (a, b) \<Rightarrow> a = Some True \<or> b = Some True)"

subsection \<open>Moves as lists\<close>

text \<open>
  One call of \<^verbatim>\<open>moveTileSprite\<close>, given as the pair of its source and its target
  coordinate, and the calls the loops of the source make, in their order.
\<close>

definition move_pair :: "tiledmap \<Rightarrow> (int \<times> int) \<times> (int \<times> int) \<Rightarrow> layer \<Rightarrow> layer" where
  "move_pair m p s = moveTileSprite m (fst (fst p)) (snd (fst p)) (fst (snd p)) (snd (snd p)) s"

definition left_pairs :: "bool \<Rightarrow> rect \<Rightarrow> ((int \<times> int) \<times> (int \<times> int)) list" where
  "left_pairs forceNew r =
     map (\<lambda>i. ((if forceNew then - 1 else r_right r, if forceNew then - 1 else r_top r + i),
               (r_left r - 1, r_top r + i))) [0..r_height r - 1]"

definition right_pairs :: "bool \<Rightarrow> rect \<Rightarrow> ((int \<times> int) \<times> (int \<times> int)) list" where
  "right_pairs forceNew r =
     map (\<lambda>i. ((if forceNew then - 1 else r_left r, if forceNew then - 1 else r_top r + i),
               (r_right r + 1, r_top r + i))) [0..r_height r - 1]"

definition up_pairs :: "bool \<Rightarrow> rect \<Rightarrow> ((int \<times> int) \<times> (int \<times> int)) list" where
  "up_pairs forceNew r =
     map (\<lambda>i. ((if forceNew then - 1 else r_left r + i, if forceNew then - 1 else r_bottom r),
               (r_left r + i, r_top r - 1))) [0..r_width r - 1]"

definition down_pairs :: "bool \<Rightarrow> rect \<Rightarrow> ((int \<times> int) \<times> (int \<times> int)) list" where
  "down_pairs forceNew r =
     map (\<lambda>i. ((if forceNew then - 1 else r_left r + i, if forceNew then - 1 else r_top r),
               (r_left r + i, r_bottom r + 1))) [0..r_width r - 1]"

definition same_pairs :: "int list \<Rightarrow> int list \<Rightarrow> ((int \<times> int) \<times> (int \<times> int)) list" where
  "same_pairs xs ys = map (\<lambda>c. (c, c)) (List.product xs ys)"

text \<open>The clamped start and end of \<^verbatim>\<open>renderTiles\<close> along one axis.\<close>

definition startOf :: "int \<Rightarrow> int" where
  "startOf start0 = (if start0 < 0 then 0 else start0)"

definition endOf :: "int \<Rightarrow> int \<Rightarrow> int \<Rightarrow> int" where
  "endOf start0 num sz =
     (if startOf start0 + num \<le> sz then startOf start0 + num else sz - startOf start0)"

text \<open>The measure of the loops of \<^verbatim>\<open>pan\<close>.\<close>

definition num_val :: "num \<Rightarrow> int" where
  "num_val a = (case a of Num v \<Rightarrow> v | NaN \<Rightarrow> 0)"

definition resolves :: "tiledmap \<Rightarrow> layer \<Rightarrow> int \<times> int \<Rightarrow> bool" where
  "resolves m s c = (resolve m s (fst c) (snd c) \<noteq> None)"

section \<open>Example maps\<close>

text \<open>
  A 4 by 4 orthogonal map of 32 pixel tiles, every cell holding tile id 1 of one
  tileset without properties.
\<close>

definition no_props :: props where
  "no_props = \<lparr>interactive = None, interactiveTiles = None, hitArea = None,
                tileHitArea = None, isCollidable = False, type_p = None\<rparr>"

definition plain_tileset :: tileset where
  "plain_tileset = \<lparr>ts_tileSize = (32, 32), tileoffset = (0, 0), ts_properties = no_props,
                     getTileTexture = (\<lambda>i. i), getTileProperties = (\<lambda>i. no_props)\<rparr>"

definition plain_map :: tiledmap where
  "plain_map = \<lparr>m_size = (4, 4), tileSize = (32, 32), scaledTileSize = (32, 32),
                 m_position = (0, 0), orientation = ''orthogonal'', m_properties = no_props,
                 getTileset = (\<lambda>i. if 1 \<le> i then Some plain_tileset else None)\<rparr>"

definition plain_layer :: layer where
  "plain_layer = TiledLayer (replicate 16 1) no_props (4, 4)"

text \<open>A 12 by 12 map of the same tiles, wide enough for a window of 10 by 10.\<close>

definition wide_map :: tiledmap where
  "wide_map = plain_map\<lparr>m_size := (12, 12)\<rparr>"

definition wide_layer :: layer where
  "wide_layer = TiledLayer (replicate 144 1) no_props (12, 12)"

text \<open>The isometric map of Scenario C: tiles and tileset tiles of 64 by 32 pixels.\<close>

definition iso_tileset :: tileset where
  "iso_tileset = plain_tileset\<lparr>ts_tileSize := (64, 32)\<rparr>"

definition iso_map :: tiledmap where
  "iso_map = \<lparr>m_size = (4, 4), tileSize = (64, 32), scaledTileSize = (64, 32),
               m_position = (0, 0), orientation = ''isometric'', m_properties = no_props,
               getTileset = (\<lambda>i. if 1 \<le> i then Some iso_tileset else None)\<rparr>"

text \<open>
  A map whose tiles are interactive and collidable; its layer holds tile id 1 in the
  first cell and the empty id 0 in the others.
\<close>

definition touch_props :: props where
  "touch_props = no_props\<lparr>interactive := Some True, isCollidable := True\<rparr>"

definition touch_tileset :: tileset where
  "touch_tileset = plain_tileset\<lparr>getTileProperties := (\<lambda>i. touch_props)\<rparr>"

definition touch_map :: tiledmap where
  "touch_map = plain_map\<lparr>getTileset := (\<lambda>i. if 1 \<le> i then Some touch_tileset else None)\<rparr>"

definition touch_layer :: layer where
  "touch_layer = TiledLayer (1 # replicate 15 0) no_props (4, 4)"

section \<open>Lemmas\<close>

subsection \<open>The grid\<close>

lemma tile_at_set_entry:
  "tile_at (set_entry g x y v) x' y' = (if x' = x \<and> y' = y then v else tile_at g x' y')"
  by (auto simp: tile_at_def set_entry_def update_conv' split: option.splits)

lemma tile_at_live:
  assumes "tile_at g x y = Some n"
  shows "n \<in> set (live_nodes g)"
proof -
  from assms obtain col where c: "map_of g x = Some col" and e: "map_of col y = Some (Some n)"
    by (auto simp: tile_at_def split: option.splits)
  from c have "(x, col) \<in> set g" by (rule map_of_SomeD)
  moreover from e have "(y, Some n) \<in> set col" by (rule map_of_SomeD)
  then have "n \<in> set (column_nodes col)"
    by (force simp: column_nodes_def)
  ultimately show ?thesis
    by (force simp: live_nodes_def)
qed

lemma column_nodes_simps [simp]:
  "column_nodes [] = []"
  "column_nodes ((y, v) # col) = opt_nodes v @ column_nodes col"
  by (simp_all add: column_nodes_def opt_nodes_def)

lemma live_nodes_simps [simp]:
  "live_nodes [] = []"
  "live_nodes ((x, col) # g) = column_nodes col @ live_nodes g"
  by (simp_all add: live_nodes_def)

lemma mset_column_update:
  "mset (column_nodes (AList.update y v col))
     + mset (opt_nodes (case map_of col y of None \<Rightarrow> None | Some t \<Rightarrow> t))
   = mset (column_nodes col) + mset (opt_nodes v)"
  by (induction col) (auto simp: opt_nodes_def)

lemma mset_grid_update:
  "mset (live_nodes (AList.update x c g))
     + mset (column_nodes (case map_of g x of None \<Rightarrow> [] | Some c0 \<Rightarrow> c0))
   = mset (live_nodes g) + mset (column_nodes c)"
  by (induction g) auto

lemma mset_set_entry:
  "mset (live_nodes (set_entry g x y v)) + mset (opt_nodes (tile_at g x y))
   = mset (live_nodes g) + mset (opt_nodes v)"
proof -
  let ?c0 = "case map_of g x of None \<Rightarrow> [] | Some c0 \<Rightarrow> c0"
  have a: "tile_at g x y = (case map_of ?c0 y of None \<Rightarrow> None | Some t \<Rightarrow> t)"
    by (simp add: tile_at_def split: option.splits)
  have "mset (live_nodes (set_entry g x y v)) + mset (column_nodes ?c0)
          + mset (opt_nodes (tile_at g x y))
        = mset (live_nodes g) + (mset (column_nodes (AList.update y v ?c0))
          + mset (opt_nodes (tile_at g x y)))"
    unfolding set_entry_def using mset_grid_update [of x "AList.update y v ?c0" g]
    by (simp add: ac_simps)
  also have "\<dots> = mset (live_nodes g) + (mset (column_nodes ?c0) + mset (opt_nodes v))"
    unfolding a mset_column_update ..
  finally show ?thesis by (simp add: ac_simps)
qed

lemma set_update_subset: "set (AList.update k v al) \<subseteq> insert (k, v) (set al)"
  by (induction al) auto

lemma wf_grid_set_entry:
  assumes "wf_grid g"
  shows "wf_grid (set_entry g x y v)"
proof -
  let ?c0 = "case map_of g x of None \<Rightarrow> [] | Some c0 \<Rightarrow> c0"
  have "distinct (map fst ?c0)"
    using assms by (auto simp: wf_grid_def list_all_iff split: option.splits dest!: map_of_SomeD)
  then have "distinct (map fst (AList.update y v ?c0))"
    by (rule distinct_update)
  moreover have "distinct (map fst (AList.update x (AList.update y v ?c0) g))"
    using assms by (simp add: wf_grid_def distinct_update)
  ultimately show ?thesis
    using assms set_update_subset [of x "AList.update y v ?c0" g]
    unfolding wf_grid_def set_entry_def list_all_iff by auto
qed

lemma live_nodes_tile_at:
  assumes "wf_grid g" "n \<in> set (live_nodes g)"
  shows "\<exists>x y. tile_at g x y = Some n"
proof -
  from assms(2) obtain x col where xc: "(x, col) \<in> set g" and n: "n \<in> set (column_nodes col)"
    by (auto simp: live_nodes_def)
  from n obtain y where y: "(y, Some n) \<in> set col"
    by (auto simp: column_nodes_def split: option.splits)
  from assms(1) xc have "map_of g x = Some col"
    by (simp add: wf_grid_def)
  moreover from assms(1) xc y have "map_of col y = Some (Some n)"
    by (auto simp: wf_grid_def list_all_iff)
  ultimately have "tile_at g x y = Some n" by (simp add: tile_at_def)
  then show ?thesis by blast
qed

subsection \<open>clearTiles\<close>

lemma clear_column_fold: "clear_column col s = fold free_tile (column_nodes col) s"
  unfolding clear_column_def
  by (induction col arbitrary: s) (auto simp: opt_nodes_def split: option.splits)

lemma clear_grid_fold:
  "fold (\<lambda>(x, col) s'. clear_column col s') g s = fold free_tile (live_nodes g) s"
  by (induction g arbitrary: s) (auto simp: clear_column_fold)

lemma clearTiles_fold:
  "clearTiles s = (fold free_tile (live_nodes (tiles s)) s)
                     \<lparr>tiles := map (\<lambda>(x, col). (x, [])) (tiles s)\<rparr>"
  by (simp add: clearTiles_def clear_grid_fold)

lemma fold_free_tile_fields:
  "tilePool (fold free_tile ns s) = tilePool s @ ns"
  "length (heap (fold free_tile ns s)) = length (heap s)"
  "rendered (fold free_tile ns s) = rendered s"
  "tileIds (fold free_tile ns s) = tileIds s"
  "l_size (fold free_tile ns s) = l_size s"
  "properties (fold free_tile ns s) = properties s"
  "l_buffered (fold free_tile ns s) = l_buffered s"
  "panDelta (fold free_tile ns s) = panDelta s"
  "children (fold free_tile ns s) = children s"
  by (induction ns arbitrary: s; simp add: free_tile_def upd_tile_def)+

lemma live_nodes_cleared: "live_nodes (map (\<lambda>(x, col). (x, [])) g) = []"
  by (induction g) auto

lemma tile_at_cleared: "tile_at (map (\<lambda>(x, col). (x, [])) g) x y = None"
  by (induction g) (auto simp: tile_at_def)

lemma keys_cleared: "map fst (map (\<lambda>(x, col). (x, [])) g) = map fst g"
  by (induction g) auto

lemma wf_grid_cleared:
  assumes "wf_grid g"
  shows "wf_grid (map (\<lambda>(x, col). (x, [])) g)"
proof -
  have "list_all (\<lambda>(x, col). distinct (map fst col)) (map (\<lambda>(x, col). (x, [])) g)"
    by (induction g) auto
  with assms show ?thesis
    unfolding wf_grid_def keys_cleared by simp
qed

lemma clearTiles_fields [simp]:
  "tilePool (clearTiles s) = tilePool s @ live_nodes (tiles s)"
  "length (heap (clearTiles s)) = length (heap s)"
  "rendered (clearTiles s) = rendered s"
  "tileIds (clearTiles s) = tileIds s"
  "l_size (clearTiles s) = l_size s"
  "properties (clearTiles s) = properties s"
  "l_buffered (clearTiles s) = l_buffered s"
  "panDelta (clearTiles s) = panDelta s"
  "live_nodes (tiles (clearTiles s)) = []"
  "tile_at (tiles (clearTiles s)) x y = None"
  by (simp_all add: clearTiles_fold fold_free_tile_fields live_nodes_cleared tile_at_cleared)

lemma conserved_clearTiles: "conserved s \<Longrightarrow> conserved (clearTiles s)"
  unfolding conserved_def
  by (simp add: ac_simps) (simp add: clearTiles_fold wf_grid_cleared)

subsection \<open>moveTileSprite\<close>

lemma upd_tile_length [simp]: "length (upd_tile n f h) = length h"
  by (simp add: upd_tile_def)

lemma moveTileSprite_frame [simp]:
  "rendered (moveTileSprite m fx fy tx ty s) = rendered s"
  "l_buffered (moveTileSprite m fx fy tx ty s) = l_buffered s"
  "panDelta (moveTileSprite m fx fy tx ty s) = panDelta s"
  "tileIds (moveTileSprite m fx fy tx ty s) = tileIds s"
  "l_size (moveTileSprite m fx fy tx ty s) = l_size s"
  "properties (moveTileSprite m fx fy tx ty s) = properties s"
  by (simp_all add: moveTileSprite_def take_tile_def Let_def split: option.splits prod.splits)

lemma resolve_moveTileSprite [simp]:
  "resolve m (moveTileSprite m' fx fy tx ty s) = resolve m s"
  by (intro ext) (simp add: resolve_def)

lemma moveTileSprite_unresolved:
  assumes "resolve m s tx ty = None"
  shows "moveTileSprite m fx fy tx ty s =
     (case tile_at (tiles s) fx fy of None \<Rightarrow> s
      | Some t \<Rightarrow> s\<lparr>tiles := set_entry (tiles s) fx fy None,
                    heap := upd_tile t (\<lambda>u. u\<lparr>visible := False\<rparr>) (heap s),
                    tilePool := tilePool s @ [t]\<rparr>)"
  using assms by (simp add: moveTileSprite_def)

lemma occupied_moveTileSprite:
  "occupied (moveTileSprite m fx fy tx ty s) c =
     (if resolve m s tx ty = None then c \<noteq> (fx, fy) \<and> occupied s c
      else c = (tx, ty) \<or> (c \<noteq> (fx, fy) \<and> occupied s c))"
  by (cases c)
     (auto simp: occupied_def moveTileSprite_def take_tile_def Let_def tile_at_set_entry
           split: option.splits prod.splits if_splits)

lemma live_nodes_remove:
  assumes "tile_at g x y = Some n"
  shows "mset (live_nodes g) = add_mset n (mset (live_nodes (set_entry g x y None)))"
  using mset_set_entry [of g x y None] assms by (simp add: opt_nodes_def)

lemma live_nodes_insert:
  assumes "tile_at g x y = None"
  shows "mset (live_nodes (set_entry g x y (Some n))) = add_mset n (mset (live_nodes g))"
  using mset_set_entry [of g x y "Some n"] assms by (simp add: opt_nodes_def)

lemma conserved_moveTileSprite:
  assumes c: "conserved s"
    and free: "tile_at (tiles s) tx ty = None \<or> (tx, ty) = (fx, fy)"
  shows "conserved (moveTileSprite m fx fy tx ty s)"
proof (cases "resolve m s tx ty")
  case None
  show ?thesis
  proof (cases "tile_at (tiles s) fx fy")
    case N: None
    with None c show ?thesis by (simp add: moveTileSprite_unresolved)
  next
    case (Some n)
    with None c live_nodes_remove [OF Some] show ?thesis
      by (simp add: moveTileSprite_unresolved conserved_def wf_grid_set_entry)
  qed
next
  case (Some r)
  obtain tileId ts where r: "r = (tileId, ts)" by (cases r)
  show ?thesis
  proof (cases "tile_at (tiles s) fx fy")
    case (Some n)
    let ?g1 = "set_entry (tiles s) fx fy None"
    have "tile_at ?g1 tx ty = None"
      using free by (auto simp: tile_at_set_entry)
    from live_nodes_insert [OF this, of n] live_nodes_remove [OF Some]
    have "mset (live_nodes (set_entry ?g1 tx ty (Some n))) = mset (live_nodes (tiles s))"
      by simp
    with \<open>resolve m s tx ty = Some r\<close> r Some c show ?thesis
      by (simp add: moveTileSprite_def take_tile_def Let_def conserved_def wf_grid_set_entry)
  next
    case None
    with free have f: "tile_at (tiles s) tx ty = None" by auto
    show ?thesis
    proof (cases "tilePool s = []")
      case True
      with live_nodes_insert [OF f, of "length (heap s)"]
        \<open>resolve m s tx ty = Some r\<close> r None c show ?thesis
        by (simp add: moveTileSprite_def take_tile_def Let_def conserved_def wf_grid_set_entry)
    next
      case False
      then have "tilePool s = butlast (tilePool s) @ [last (tilePool s)]"
        by simp
      then have "mset (tilePool s) = add_mset (last (tilePool s)) (mset (butlast (tilePool s)))"
        by (metis mset.simps(1) mset.simps(2) mset_append union_mset_add_mset_right
            add.right_neutral)
      with live_nodes_insert [OF f, of "last (tilePool s)"] False
        \<open>resolve m s tx ty = Some r\<close> r None c show ?thesis
        by (simp add: moveTileSprite_def take_tile_def Let_def conserved_def wf_grid_set_entry)
    qed
  qed
qed

subsection \<open>Loops as folds\<close>

lemma forLoop_fold: "forLoop i n body s = fold body [i..n - 1] s"
proof (induction i n body s rule: forLoop.induct)
  case (1 i n body s)
  show ?case
  proof (cases "i < n")
    case True
    then have "[i..n - 1] = i # [i + 1..n - 1]"
      by (simp add: upto_rec1)
    with True 1 show ?thesis
      by (simp add: forLoop.simps [of i n])
  next
    case False
    then show ?thesis
      by (simp add: forLoop.simps [of i n])
  qed
qed

lemma fold_moves_frame [simp]:
  "rendered (fold (move_pair m) ps s) = rendered s"
  "l_buffered (fold (move_pair m) ps s) = l_buffered s"
  "panDelta (fold (move_pair m) ps s) = panDelta s"
  "tileIds (fold (move_pair m) ps s) = tileIds s"
  "l_size (fold (move_pair m) ps s) = l_size s"
  "properties (fold (move_pair m) ps s) = properties s"
  by (induction ps arbitrary: s; simp add: move_pair_def)+

lemma fold_moves_occupied:
  "occupied (fold (move_pair m) ps s) c \<Longrightarrow>
     (occupied s c \<and> c \<notin> fst ` set ps) \<or> c \<in> snd ` set ps"
proof (induction ps arbitrary: s)
  case Nil
  then show ?case by simp
next
  case (Cons p ps)
  from Cons.prems have "occupied (fold (move_pair m) ps (move_pair m p s)) c" by simp
  from Cons.IH [OF this] show ?case
    by (auto simp: move_pair_def occupied_moveTileSprite split: if_splits)
qed

lemma fold_moves_conserved:
  assumes "conserved s" "distinct (map snd ps)" "\<forall>p \<in> set ps. \<not> occupied s (snd p)"
  shows "conserved (fold (move_pair m) ps s)"
  using assms
proof (induction ps arbitrary: s)
  case Nil
  then show ?case by simp
next
  case (Cons p ps)
  have "tile_at (tiles s) (fst (snd p)) (snd (snd p)) = None"
    using Cons.prems(3) by (simp add: occupied_def)
  then have 1: "conserved (move_pair m p s)"
    unfolding move_pair_def using Cons.prems(1) by (intro conserved_moveTileSprite) simp_all
  have 2: "\<forall>q \<in> set ps. \<not> occupied (move_pair m p s) (snd q)"
  proof
    fix q
    assume q: "q \<in> set ps"
    then have in_ps: "snd q \<in> snd ` set ps" by (rule imageI)
    from Cons.prems(2) have out_ps: "snd p \<notin> snd ` set ps" by simp
    have "snd q \<noteq> snd p"
    proof
      assume "snd q = snd p"
      with in_ps out_ps show False by simp
    qed
    moreover from q Cons.prems(3) have "\<not> occupied s (snd q)" by simp
    ultimately show "\<not> occupied (move_pair m p s) (snd q)"
      by (simp add: move_pair_def occupied_moveTileSprite)
  qed
  from Cons.IH [OF 1 _ 2] Cons.prems(2) show ?case by simp
qed

lemma fold_body_moves:
  assumes "\<And>j t. j \<in> set js \<Longrightarrow> rendered t = rendered s \<Longrightarrow> body j t = move_pair m (f j) t"
  shows "fold body js s = fold (move_pair m) (map f js) s"
  using assms
proof (induction js arbitrary: s)
  case Nil
  then show ?case by simp
next
  case (Cons j js)
  have b: "body j s = move_pair m (f j) s"
    by (rule Cons.prems) simp_all
  have "fold body js (move_pair m (f j) s) = fold (move_pair m) (map f js) (move_pair m (f j) s)"
    by (rule Cons.IH) (simp add: Cons.prems move_pair_def)
  with b show ?case by simp
qed

subsection \<open>The window invariant\<close>

lemma containedD: "contained s \<Longrightarrow> occupied s c \<Longrightarrow> in_rect (rendered s) c"
  by (cases c) (simp add: contained_def occupied_def)

lemma containedI: "(\<And>c. occupied s c \<Longrightarrow> in_rect (rendered s) c) \<Longrightarrow> contained s"
  by (simp add: contained_def occupied_def)

lemma window_invD:
  assumes "window_inv s"
  shows "rect_ok (rendered s)" "1 \<le> r_width (rendered s)" "1 \<le> r_height (rendered s)"
    "contained s"
  using assms by (simp_all add: window_inv_def)

lemma rect_ok_updateRenderSq [simp]: "rect_ok (updateRenderSq r)"
  by (simp add: rect_ok_def updateRenderSq_def)

lemma updateRenderSq_fields [simp]:
  "r_x (updateRenderSq r) = r_x r" "r_y (updateRenderSq r) = r_y r"
  "r_width (updateRenderSq r) = r_width r" "r_height (updateRenderSq r) = r_height r"
  by (simp_all add: updateRenderSq_def)

lemma conserved_rendered [simp]: "conserved (s\<lparr>rendered := r\<rparr>) = conserved s"
  by (simp add: conserved_def)

lemma occupied_rendered [simp]: "occupied (s\<lparr>rendered := r\<rparr>) = occupied s"
  by (simp add: occupied_def fun_eq_iff)

lemma renderLeft_fold:
  "renderLeft m forceNew s =
     (fold (move_pair m) (left_pairs forceNew (rendered s)) s)
       \<lparr>rendered := updateRenderSq
          ((rendered s)\<lparr>r_x := r_x (rendered s) - 1,
             r_width := (if forceNew then r_width (rendered s) + 1 else r_width (rendered s))\<rparr>)\<rparr>"
proof -
  have "fold (\<lambda>i s'. moveTileSprite m
                    (if forceNew then - 1 else r_right (rendered s'))
                    (if forceNew then - 1 else r_top (rendered s') + i)
                    (r_left (rendered s') - 1)
                    (r_top (rendered s') + i) s') [0..r_height (rendered s) - 1] s
        = fold (move_pair m) (left_pairs forceNew (rendered s)) s"
    unfolding left_pairs_def by (rule fold_body_moves) (simp add: move_pair_def)
  then show ?thesis
    by (simp add: renderLeft_def forLoop_fold Let_def)
qed

lemma left_pairs_dst:
  "c \<in> snd ` set (left_pairs f r) \<longleftrightarrow>
     fst c = r_left r - 1 \<and> r_top r \<le> snd c \<and> snd c \<le> r_top r + r_height r - 1"
  by (cases c) (auto simp: left_pairs_def image_iff intro!: bexI [of _ "snd c - r_top r"])

lemma left_pairs_src:
  "c \<in> fst ` set (left_pairs False r) \<longleftrightarrow>
     fst c = r_right r \<and> r_top r \<le> snd c \<and> snd c \<le> r_top r + r_height r - 1"
  by (cases c) (auto simp: left_pairs_def image_iff intro!: bexI [of _ "snd c - r_top r"])

lemma left_pairs_distinct: "distinct (map snd (left_pairs f r))"
  by (simp add: left_pairs_def distinct_map comp_def inj_on_def)

lemma window_inv_renderLeft:
  assumes "window_inv s"
  shows "window_inv (renderLeft m f s)"
proof -
  let ?r = "rendered s"
  let ?s1 = "fold (move_pair m) (left_pairs f ?r) s"
  note w = window_invD [OF assms]
  have "in_rect (rendered (renderLeft m f s)) c" if "occupied ?s1 c" for c
  proof -
    from fold_moves_occupied [OF that]
    consider "occupied s c" "c \<notin> fst ` set (left_pairs f ?r)" | "c \<in> snd ` set (left_pairs f ?r)"
      by blast
    then show ?thesis
    proof cases
      case 1
      from w(4) 1(1) have "in_rect ?r c" by (rule containedD)
      with 1(2) w(1-3) show ?thesis
        by (cases f) (auto simp: renderLeft_fold in_rect_def left_pairs_src rect_ok_def)
    next
      case 2
      with w(1-3) show ?thesis
        by (auto simp: renderLeft_fold in_rect_def left_pairs_dst rect_ok_def)
    qed
  qed
  then have "contained (renderLeft m f s)"
    by (intro containedI) (simp add: renderLeft_fold)
  with w(1-3) show ?thesis
    by (simp add: window_inv_def) (simp add: renderLeft_fold)
qed

lemma conserved_renderLeft:
  assumes "window_inv s" "conserved s"
  shows "conserved (renderLeft m f s)"
proof -
  note w = window_invD [OF assms(1)]
  have "\<forall>p \<in> set (left_pairs f (rendered s)). \<not> occupied s (snd p)"
  proof
    fix p
    assume "p \<in> set (left_pairs f (rendered s))"
    then have "snd p \<in> snd ` set (left_pairs f (rendered s))" by (rule imageI)
    then have "\<not> in_rect (rendered s) (snd p)"
      using w(1-3) by (simp add: left_pairs_dst in_rect_def rect_ok_def)
    with w(4) show "\<not> occupied s (snd p)"
      using containedD by blast
  qed
  with assms(2) show ?thesis
    by (simp add: renderLeft_fold fold_moves_conserved left_pairs_distinct)
qed

lemma renderLeft_frame [simp]:
  "l_buffered (renderLeft m f s) = l_buffered s"
  "panDelta (renderLeft m f s) = panDelta s"
  "tileIds (renderLeft m f s) = tileIds s"
  "l_size (renderLeft m f s) = l_size s"
  "properties (renderLeft m f s) = properties s"
  by (simp_all add: renderLeft_fold)

lemma renderRight_fold:
  "renderRight m forceNew s =
     (fold (move_pair m) (right_pairs forceNew (rendered s)) s)
       \<lparr>rendered := updateRenderSq
          ((rendered s)\<lparr>r_x := (if \<not> forceNew then r_x (rendered s) + 1 else r_x (rendered s)),
             r_width := (if forceNew then r_width (rendered s) + 1 else r_width (rendered s))\<rparr>)\<rparr>"
proof -
  have "fold (\<lambda>i s'. move_pair m ((\<lambda>r. ((if forceNew then - 1 else r_left r, if forceNew then - 1 else r_top r + i),
               (r_right r + 1, r_top r + i))) (rendered s')) s')
          [0..r_height (rendered s) - 1] s
        = fold (move_pair m) (right_pairs forceNew (rendered s)) s"
    unfolding right_pairs_def by (rule fold_body_moves) simp
  then show ?thesis
    by (cases forceNew) (simp_all add: renderRight_def forLoop_fold Let_def move_pair_def)
qed

lemma right_pairs_dst:
  "c \<in> snd ` set (right_pairs f r) \<longleftrightarrow> fst c = r_right r + 1 \<and> r_top r \<le> snd c \<and> snd c \<le> r_top r + r_height r - 1"
  by (cases c) (auto simp: right_pairs_def image_iff intro!: bexI [of _ "snd c - r_top r"])

lemma right_pairs_src:
  "c \<in> fst ` set (right_pairs False r) \<longleftrightarrow> fst c = r_left r \<and> r_top r \<le> snd c \<and> snd c \<le> r_top r + r_height r - 1"
  by (cases c) (auto simp: right_pairs_def image_iff intro!: bexI [of _ "snd c - r_top r"])

lemma right_pairs_distinct: "distinct (map snd (right_pairs f r))"
  by (simp add: right_pairs_def distinct_map comp_def inj_on_def)

lemma window_inv_renderRight:
  assumes "window_inv s"
  shows "window_inv (renderRight m f s)"
proof -
  let ?r = "rendered s"
  let ?s1 = "fold (move_pair m) (right_pairs f ?r) s"
  note w = window_invD [OF assms]
  have "in_rect (rendered (renderRight m f s)) c" if "occupied ?s1 c" for c
  proof -
    from fold_moves_occupied [OF that]
    consider "occupied s c" "c \<notin> fst ` set (right_pairs f ?r)" | "c \<in> snd ` set (right_pairs f ?r)"
      by blast
    then show ?thesis
    proof cases
      case 1
      from w(4) 1(1) have "in_rect ?r c" by (rule containedD)
      with 1(2) w(1-3) show ?thesis
        by (cases f) (auto simp: renderRight_fold in_rect_def right_pairs_src rect_ok_def)
    next
      case 2
      with w(1-3) show ?thesis
        by (auto simp: renderRight_fold in_rect_def right_pairs_dst rect_ok_def)
    qed
  qed
  then have "contained (renderRight m f s)"
    by (intro containedI) (simp add: renderRight_fold)
  with w(1-3) show ?thesis
    by (simp add: window_inv_def) (simp add: renderRight_fold)
qed

lemma conserved_renderRight:
  assumes "window_inv s" "conserved s"
  shows "conserved (renderRight m f s)"
proof -
  note w = window_invD [OF assms(1)]
  have "\<forall>p \<in> set (right_pairs f (rendered s)). \<not> occupied s (snd p)"
  proof
    fix p
    assume "p \<in> set (right_pairs f (rendered s))"
    then have "snd p \<in> snd ` set (right_pairs f (rendered s))" by (rule imageI)
    then have "\<not> in_rect (rendered s) (snd p)"
      using w(1-3) by (simp add: right_pairs_dst in_rect_def rect_ok_def)
    with w(4) show "\<not> occupied s (snd p)"
      using containedD by blast
  qed
  with assms(2) show ?thesis
    by (simp add: renderRight_fold fold_moves_conserved right_pairs_distinct)
qed

lemma renderRight_frame [simp]:
  "l_buffered (renderRight m f s) = l_buffered s"
  "panDelta (renderRight m f s) = panDelta s"
  "tileIds (renderRight m f s) = tileIds s"
  "l_size (renderRight m f s) = l_size s"
  "properties (renderRight m f s) = properties s"
  by (simp_all add: renderRight_fold)

lemma renderUp_fold:
  "renderUp m forceNew s =
     (fold (move_pair m) (up_pairs forceNew (rendered s)) s)
       \<lparr>rendered := updateRenderSq
          ((rendered s)\<lparr>r_y := r_y (rendered s) - 1,
             r_height := (if forceNew then r_height (rendered s) + 1 else r_height (rendered s))\<rparr>)\<rparr>"
proof -
  have "fold (\<lambda>i s'. move_pair m ((\<lambda>r. ((if forceNew then - 1 else r_left r + i, if forceNew then - 1 else r_bottom r),
               (r_left r + i, r_top r - 1))) (rendered s')) s')
          [0..r_width (rendered s) - 1] s
        = fold (move_pair m) (up_pairs forceNew (rendered s)) s"
    unfolding up_pairs_def by (rule fold_body_moves) simp
  then show ?thesis
    by (cases forceNew) (simp_all add: renderUp_def forLoop_fold Let_def move_pair_def)
qed

lemma up_pairs_dst:
  "c \<in> snd ` set (up_pairs f r) \<longleftrightarrow> snd c = r_top r - 1 \<and> r_left r \<le> fst c \<and> fst c \<le> r_left r + r_width r - 1"
  by (cases c) (auto simp: up_pairs_def image_iff intro!: bexI [of _ "fst c - r_left r"])

lemma up_pairs_src:
  "c \<in> fst ` set (up_pairs False r) \<longleftrightarrow> snd c = r_bottom r \<and> r_left r \<le> fst c \<and> fst c \<le> r_left r + r_width r - 1"
  by (cases c) (auto simp: up_pairs_def image_iff intro!: bexI [of _ "fst c - r_left r"])

lemma up_pairs_distinct: "distinct (map snd (up_pairs f r))"
  by (simp add: up_pairs_def distinct_map comp_def inj_on_def)

lemma window_inv_renderUp:
  assumes "window_inv s"
  shows "window_inv (renderUp m f s)"
proof -
  let ?r = "rendered s"
  let ?s1 = "fold (move_pair m) (up_pairs f ?r) s"
  note w = window_invD [OF assms]
  have "in_rect (rendered (renderUp m f s)) c" if "occupied ?s1 c" for c
  proof -
    from fold_moves_occupied [OF that]
    consider "occupied s c" "c \<notin> fst ` set (up_pairs f ?r)" | "c \<in> snd ` set (up_pairs f ?r)"
      by blast
    then show ?thesis
    proof cases
      case 1
      from w(4) 1(1) have "in_rect ?r c" by (rule containedD)
      with 1(2) w(1-3) show ?thesis
        by (cases f) (auto simp: renderUp_fold in_rect_def up_pairs_src rect_ok_def)
    next
      case 2
      with w(1-3) show ?thesis
        by (auto simp: renderUp_fold in_rect_def up_pairs_dst rect_ok_def)
    qed
  qed
  then have "contained (renderUp m f s)"
    by (intro containedI) (simp add: renderUp_fold)
  with w(1-3) show ?thesis
    by (simp add: window_inv_def) (simp add: renderUp_fold)
qed

lemma conserved_renderUp:
  assumes "window_inv s" "conserved s"
  shows "conserved (renderUp m f s)"
proof -
  note w = window_invD [OF assms(1)]
  have "\<forall>p \<in> set (up_pairs f (rendered s)). \<not> occupied s (snd p)"
  proof
    fix p
    assume "p \<in> set (up_pairs f (rendered s))"
    then have "snd p \<in> snd ` set (up_pairs f (rendered s))" by (rule imageI)
    then have "\<not> in_rect (rendered s) (snd p)"
      using w(1-3) by (simp add: up_pairs_dst in_rect_def rect_ok_def)
    with w(4) show "\<not> occupied s (snd p)"
      using containedD by blast
  qed
  with assms(2) show ?thesis
    by (simp add: renderUp_fold fold_moves_conserved up_pairs_distinct)
qed

lemma renderUp_frame [simp]:
  "l_buffered (renderUp m f s) = l_buffered s"
  "panDelta (renderUp m f s) = panDelta s"
  "tileIds (renderUp m f s) = tileIds s"
  "l_size (renderUp m f s) = l_size s"
  "properties (renderUp m f s) = properties s"
  by (simp_all add: renderUp_fold)

lemma renderDown_fold:
  "renderDown m forceNew s =
     (fold (move_pair m) (down_pairs forceNew (rendered s)) s)
       \<lparr>rendered := updateRenderSq
          ((rendered s)\<lparr>r_y := (if \<not> forceNew then r_y (rendered s) + 1 else r_y (rendered s)),
             r_height := (if forceNew then r_height (rendered s) + 1 else r_height (rendered s))\<rparr>)\<rparr>"
proof -
  have "fold (\<lambda>i s'. move_pair m ((\<lambda>r. ((if forceNew then - 1 else r_left r + i, if forceNew then - 1 else r_top r),
               (r_left r + i, r_bottom r + 1))) (rendered s')) s')
          [0..r_width (rendered s) - 1] s
        = fold (move_pair m) (down_pairs forceNew (rendered s)) s"
    unfolding down_pairs_def by (rule fold_body_moves) simp
  then show ?thesis
    by (cases forceNew) (simp_all add: renderDown_def forLoop_fold Let_def move_pair_def)
qed

lemma down_pairs_dst:
  "c \<in> snd ` set (down_pairs f r) \<longleftrightarrow> snd c = r_bottom r + 1 \<and> r_left r \<le> fst c \<and> fst c \<le> r_left r + r_width r - 1"
  by (cases c) (auto simp: down_pairs_def image_iff intro!: bexI [of _ "fst c - r_left r"])

lemma down_pairs_src:
  "c \<in> fst ` set (down_pairs False r) \<longleftrightarrow> snd c = r_top r \<and> r_left r \<le> fst c \<and> fst c \<le> r_left r + r_width r - 1"
  by (cases c) (auto simp: down_pairs_def image_iff intro!: bexI [of _ "fst c - r_left r"])

lemma down_pairs_distinct: "distinct (map snd (down_pairs f r))"
  by (simp add: down_pairs_def distinct_map comp_def inj_on_def)

lemma window_inv_renderDown:
  assumes "window_inv s"
  shows "window_inv (renderDown m f s)"
proof -
  let ?r = "rendered s"
  let ?s1 = "fold (move_pair m) (down_pairs f ?r) s"
  note w = window_invD [OF assms]
  have "in_rect (rendered (renderDown m f s)) c" if "occupied ?s1 c" for c
  proof -
    from fold_moves_occupied [OF that]
    consider "occupied s c" "c \<notin> fst ` set (down_pairs f ?r)" | "c \<in> snd ` set (down_pairs f ?r)"
      by blast
    then show ?thesis
    proof cases
      case 1
      from w(4) 1(1) have "in_rect ?r c" by (rule containedD)
      with 1(2) w(1-3) show ?thesis
        by (cases f) (auto simp: renderDown_fold in_rect_def down_pairs_src rect_ok_def)
    next
      case 2
      with w(1-3) show ?thesis
        by (auto simp: renderDown_fold in_rect_def down_pairs_dst rect_ok_def)
    qed
  qed
  then have "contained (renderDown m f s)"
    by (intro containedI) (simp add: renderDown_fold)
  with w(1-3) show ?thesis
    by (simp add: window_inv_def) (simp add: renderDown_fold)
qed

lemma conserved_renderDown:
  assumes "window_inv s" "conserved s"
  shows "conserved (renderDown m f s)"
proof -
  note w = window_invD [OF assms(1)]
  have "\<forall>p \<in> set (down_pairs f (rendered s)). \<not> occupied s (snd p)"
  proof
    fix p
    assume "p \<in> set (down_pairs f (rendered s))"
    then have "snd p \<in> snd ` set (down_pairs f (rendered s))" by (rule imageI)
    then have "\<not> in_rect (rendered s) (snd p)"
      using w(1-3) by (simp add: down_pairs_dst in_rect_def rect_ok_def)
    with w(4) show "\<not> occupied s (snd p)"
      using containedD by blast
  qed
  with assms(2) show ?thesis
    by (simp add: renderDown_fold fold_moves_conserved down_pairs_distinct)
qed

lemma renderDown_frame [simp]:
  "l_buffered (renderDown m f s) = l_buffered s"
  "panDelta (renderDown m f s) = panDelta s"
  "tileIds (renderDown m f s) = tileIds s"
  "l_size (renderDown m f s) = l_size s"
  "properties (renderDown m f s) = properties s"
  by (simp_all add: renderDown_fold)

subsection \<open>The loops of pan end\<close>

lemma num_ge_step: "num_ge a t \<Longrightarrow> 0 < t \<Longrightarrow> nat (num_val (num_add a (- t))) < nat (num_val a)"
  by (cases a) (auto simp: num_val_def)

lemma num_le_step: "num_le a (- t) \<Longrightarrow> 0 < t \<Longrightarrow> nat (- num_val (num_add a t)) < nat (- num_val a)"
  by (cases a) (auto simp: num_val_def)

lemma pan_while_left_rule:
  assumes pos: "0 < fst (scaledTileSize m)"
    and step: "\<And>t. P t \<Longrightarrow> P (add_panX (- fst (scaledTileSize m)) (renderLeft m False t))"
    and init: "P s"
  shows "\<exists>s'. pan_while_left m s = Some s' \<and> P s'"
  using init
proof (induction "nat (num_val (fst (panDelta s)))" arbitrary: s rule: less_induct)
  case less
  show ?case
  proof (cases "num_ge (fst (panDelta s)) (fst (scaledTileSize m))")
    case True
    let ?t = "add_panX (- fst (scaledTileSize m)) (renderLeft m False s)"
    from num_ge_step [OF True pos]
    have "nat (num_val (fst (panDelta ?t))) < nat (num_val (fst (panDelta s)))"
      by (simp add: add_panX_def)
    from less.hyps [OF this step [OF less.prems]] True show ?thesis
      by (subst pan_while_left.simps) simp
  next
    case False
    with less.prems show ?thesis
      by (subst pan_while_left.simps) simp
  qed
qed

lemma pan_while_right_rule:
  assumes pos: "0 < fst (scaledTileSize m)"
    and step: "\<And>t. P t \<Longrightarrow> P (add_panX (fst (scaledTileSize m)) (renderRight m False t))"
    and init: "P s"
  shows "\<exists>s'. pan_while_right m s = Some s' \<and> P s'"
  using init
proof (induction "nat (- num_val (fst (panDelta s)))" arbitrary: s rule: less_induct)
  case less
  show ?case
  proof (cases "num_le (fst (panDelta s)) (- fst (scaledTileSize m))")
    case True
    let ?t = "add_panX (fst (scaledTileSize m)) (renderRight m False s)"
    from num_le_step [OF True pos]
    have "nat (- num_val (fst (panDelta ?t))) < nat (- num_val (fst (panDelta s)))"
      by (simp add: add_panX_def)
    from less.hyps [OF this step [OF less.prems]] True show ?thesis
      by (subst pan_while_right.simps) simp
  next
    case False
    with less.prems show ?thesis
      by (subst pan_while_right.simps) simp
  qed
qed

lemma pan_while_up_rule:
  assumes pos: "0 < snd (scaledTileSize m)"
    and step: "\<And>t. P t \<Longrightarrow> P (add_panY (- snd (scaledTileSize m)) (renderUp m False t))"
    and init: "P s"
  shows "\<exists>s'. pan_while_up m s = Some s' \<and> P s'"
  using init
proof (induction "nat (num_val (snd (panDelta s)))" arbitrary: s rule: less_induct)
  case less
  show ?case
  proof (cases "num_ge (snd (panDelta s)) (snd (scaledTileSize m))")
    case True
    let ?t = "add_panY (- snd (scaledTileSize m)) (renderUp m False s)"
    from num_ge_step [OF True pos]
    have "nat (num_val (snd (panDelta ?t))) < nat (num_val (snd (panDelta s)))"
      by (simp add: add_panY_def)
    from less.hyps [OF this step [OF less.prems]] True show ?thesis
      by (subst pan_while_up.simps) simp
  next
    case False
    with less.prems show ?thesis
      by (subst pan_while_up.simps) simp
  qed
qed

lemma pan_while_down_rule:
  assumes pos: "0 < snd (scaledTileSize m)"
    and step: "\<And>t. P t \<Longrightarrow> P (add_panY (snd (scaledTileSize m)) (renderDown m False t))"
    and init: "P s"
  shows "\<exists>s'. pan_while_down m s = Some s' \<and> P s'"
  using init
proof (induction "nat (- num_val (snd (panDelta s)))" arbitrary: s rule: less_induct)
  case less
  show ?case
  proof (cases "num_le (snd (panDelta s)) (- snd (scaledTileSize m))")
    case True
    let ?t = "add_panY (snd (scaledTileSize m)) (renderDown m False s)"
    from num_le_step [OF True pos]
    have "nat (- num_val (snd (panDelta ?t))) < nat (- num_val (snd (panDelta s)))"
      by (simp add: add_panY_def)
    from less.hyps [OF this step [OF less.prems]] True show ?thesis
      by (subst pan_while_down.simps) simp
  next
    case False
    with less.prems show ?thesis
      by (subst pan_while_down.simps) simp
  qed
qed

subsection \<open>renderTiles as a fold\<close>

lemma fold_product:
  "fold (\<lambda>x. fold (f x) ys) xs s = fold (\<lambda>(x, y). f x y) (List.product xs ys) s"
  by (induction xs arbitrary: s) (simp_all add: fold_map comp_def)

lemma fold_same_pairs:
  "fold (\<lambda>x. fold (\<lambda>y. moveTileSprite m x y x y) ys) xs s = fold (move_pair m) (same_pairs xs ys) s"
proof -
  have "move_pair m \<circ> (\<lambda>c. (c, c)) = (\<lambda>(x, y). moveTileSprite m x y x y)"
    by (auto simp: move_pair_def fun_eq_iff)
  then show ?thesis
    by (simp add: fold_product same_pairs_def fold_map)
qed

lemma forLoop_fold_fun: "forLoop i n body = fold body [i..n - 1]"
  by (rule ext) (rule forLoop_fold)

lemma renderTiles_fold:
  "renderTiles m sx sy nx ny s =
     (fold (move_pair m)
        (same_pairs [startOf sx..endOf sx nx (fst (m_size m)) - 1]
                    [startOf sy..endOf sy ny (snd (m_size m)) - 1]) (clearTiles s))
       \<lparr>rendered := updateRenderSq
          ((rendered s)\<lparr>r_x := startOf sx, r_y := startOf sy,
             r_width := endOf sx nx (fst (m_size m)) - startOf sx,
             r_height := endOf sy ny (snd (m_size m)) - startOf sy\<rparr>),
        l_buffered := \<lparr>b_left = False, b_right = False, b_top = False, b_bottom = False\<rparr>,
        panDelta := (js_rem (fst (m_position m)) (fst (scaledTileSize m)),
                     js_rem (snd (m_position m)) (snd (scaledTileSize m)))\<rparr>"
proof -
  have loop: "forLoop a b (\<lambda>x. forLoop c d (\<lambda>y. moveTileSprite m x y x y)) t
              = fold (move_pair m) (same_pairs [a..b - 1] [c..d - 1]) t" for a b c d t
    by (simp add: forLoop_fold_fun fold_same_pairs)
  show ?thesis
    unfolding renderTiles_def Let_def loop startOf_def endOf_def by simp
qed

lemma same_pairs_snd: "snd ` set (same_pairs xs ys) = set xs \<times> set ys"
  by (auto simp: same_pairs_def image_iff)

lemma same_pairs_distinct: "distinct xs \<Longrightarrow> distinct ys \<Longrightarrow> distinct (map snd (same_pairs xs ys))"
  by (simp add: same_pairs_def comp_def distinct_product)

lemma occupied_clearTiles [simp]: "\<not> occupied (clearTiles s) c"
  by (simp add: occupied_def)

lemma conserved_fields [simp]:
  "conserved (s\<lparr>l_buffered := b\<rparr>) = conserved s"
  "conserved (s\<lparr>panDelta := d\<rparr>) = conserved s"
  by (simp_all add: conserved_def)

lemma occupied_fields [simp]:
  "occupied (s\<lparr>l_buffered := b\<rparr>) = occupied s"
  "occupied (s\<lparr>panDelta := d\<rparr>) = occupied s"
  by (simp_all add: occupied_def fun_eq_iff)

lemma conserved_renderTiles:
  assumes "conserved s"
  shows "conserved (renderTiles m sx sy nx ny s)"
  using assms
  by (simp add: renderTiles_fold fold_moves_conserved same_pairs_distinct conserved_clearTiles)

lemma contained_renderTiles: "contained (renderTiles m sx sy nx ny s)"
proof (rule containedI)
  fix c
  let ?xs = "[startOf sx..endOf sx nx (fst (m_size m)) - 1]"
  let ?ys = "[startOf sy..endOf sy ny (snd (m_size m)) - 1]"
  assume "occupied (renderTiles m sx sy nx ny s) c"
  then have "occupied (fold (move_pair m) (same_pairs ?xs ?ys) (clearTiles s)) c"
    by (simp add: renderTiles_fold)
  from fold_moves_occupied [OF this] have "c \<in> snd ` set (same_pairs ?xs ?ys)"
    by simp
  then have "c \<in> set ?xs \<times> set ?ys"
    by (simp only: same_pairs_snd)
  then show "in_rect (rendered (renderTiles m sx sy nx ny s)) c"
    by (cases c) (simp add: renderTiles_fold in_rect_def)
qed

lemma renderTiles_bounds:
  "0 \<le> r_x (rendered (renderTiles m sx sy nx ny s))"
  "0 \<le> r_y (rendered (renderTiles m sx sy nx ny s))"
  "r_x (rendered (renderTiles m sx sy nx ny s)) + r_width (rendered (renderTiles m sx sy nx ny s))
     \<le> fst (m_size m)"
  "r_y (rendered (renderTiles m sx sy nx ny s)) + r_height (rendered (renderTiles m sx sy nx ny s))
     \<le> snd (m_size m)"
  by (simp_all add: renderTiles_fold startOf_def endOf_def)

lemma window_inv_renderTiles:
  assumes "1 \<le> r_width (rendered (renderTiles m sx sy nx ny s))"
    and "1 \<le> r_height (rendered (renderTiles m sx sy nx ny s))"
  shows "window_inv (renderTiles m sx sy nx ny s)"
  using assms contained_renderTiles [of m sx sy nx ny s]
  by (simp add: window_inv_def) (simp add: renderTiles_fold)

subsection \<open>pan keeps the invariants\<close>

lemma window_inv_fields [simp]:
  "window_inv (s\<lparr>l_buffered := b\<rparr>) = window_inv s"
  "window_inv (s\<lparr>panDelta := d\<rparr>) = window_inv s"
  by (simp_all add: window_inv_def contained_def)

lemma pan_rule:
  assumes pos: "0 < fst (scaledTileSize m)" "0 < snd (scaledTileSize m)"
    and left: "\<And>t f. P t \<Longrightarrow> P (renderLeft m f t)"
    and right: "\<And>t f. P t \<Longrightarrow> P (renderRight m f t)"
    and up: "\<And>t f. P t \<Longrightarrow> P (renderUp m f t)"
    and down: "\<And>t f. P t \<Longrightarrow> P (renderDown m f t)"
    and buf: "\<And>t b. P t \<Longrightarrow> P (t\<lparr>l_buffered := b\<rparr>)"
    and delta: "\<And>t d. P t \<Longrightarrow> P (t\<lparr>panDelta := d\<rparr>)"
    and init: "P s"
  shows "\<exists>s'. pan m dx dy s = Some s' \<and> P s'"
proof -
  let ?s0 = "pan_buffer m dx dy (add_panY dy (add_panX dx s))"
  have "P (add_panY dy (add_panX dx s))"
    using init by (simp add: add_panX_def add_panY_def delta)
  then have "P ?s0"
    by (simp add: pan_buffer_def left right up down buf)
  from pan_while_left_rule [of m P, OF pos(1) _ this]
  obtain s1 where s1: "pan_while_left m ?s0 = Some s1" "P s1"
    by (auto simp: add_panX_def delta left)
  from pan_while_right_rule [of m P, OF pos(1) _ s1(2)]
  obtain s2 where s2: "pan_while_right m s1 = Some s2" "P s2"
    by (auto simp: add_panX_def delta right)
  from pan_while_up_rule [of m P, OF pos(2) _ s2(2)]
  obtain s3 where s3: "pan_while_up m s2 = Some s3" "P s3"
    by (auto simp: add_panY_def delta up)
  from pan_while_down_rule [of m P, OF pos(2) _ s3(2)]
  obtain s4 where s4: "pan_while_down m s3 = Some s4" "P s4"
    by (auto simp: add_panY_def delta down)
  from s1 s2 s3 s4 show ?thesis
    by (simp add: pan_def)
qed

lemma pan_window_inv:
  assumes "0 < fst (scaledTileSize m)" "0 < snd (scaledTileSize m)" "window_inv s"
  shows "\<exists>s'. pan m dx dy s = Some s' \<and> window_inv s'"
  by (rule pan_rule [of m window_inv, OF assms(1,2) _ _ _ _ _ _ assms(3)])
     (simp_all add: window_inv_renderLeft window_inv_renderRight window_inv_renderUp
        window_inv_renderDown)

lemma pan_conserved:
  assumes "0 < fst (scaledTileSize m)" "0 < snd (scaledTileSize m)"
    and "window_inv s \<and> conserved s"
  shows "\<exists>s'. pan m dx dy s = Some s' \<and> window_inv s' \<and> conserved s'"
  by (rule pan_rule [of m "\<lambda>t. window_inv t \<and> conserved t", OF assms(1,2) _ _ _ _ _ _ assms(3)])
     (simp_all add: window_inv_renderLeft window_inv_renderRight window_inv_renderUp
        window_inv_renderDown conserved_renderLeft conserved_renderRight conserved_renderUp
        conserved_renderDown)

lemma pans_rule:
  assumes "\<And>t dx dy. P t \<Longrightarrow> \<exists>t'. pan m dx dy t = Some t' \<and> P t'" "P s"
  shows "\<exists>s'. pans m ds s = Some s' \<and> P s'"
  using assms(2)
proof (induction ds arbitrary: s)
  case Nil
  then show ?case by simp
next
  case (Cons d ds)
  obtain dx dy where d: "d = (dx, dy)" by (cases d)
  from assms(1) [OF Cons.prems, of dx dy] obtain t where t: "pan m dx dy s = Some t" "P t"
    by blast
  from Cons.IH [OF t(2)] t(1) d show ?case by simp
qed

section \<open>The claims\<close>

subsection \<open>Bindings\<close>

lemma bind_tile_fields [simp]:
  "t_interactive (bind_tile p tex pos i hit t) = i"
  "position (bind_tile p tex pos i hit t) = pos"
  "texture (bind_tile p tex pos i hit t) = tex"
  "visible (bind_tile p tex pos i hit t) = True"
  by (simp_all add: bind_tile_def Let_def)

lemma conserved_ids:
  assumes "conserved s"
  shows "n \<in> set (live_nodes (tiles s)) \<Longrightarrow> n < length (heap s)"
    and "n \<in> set (tilePool s) \<Longrightarrow> n < length (heap s)"
proof -
  from assms have "set_mset (mset (live_nodes (tiles s)) + mset (tilePool s))
      = set_mset (mset [0..<length (heap s)])"
    by (simp only: conserved_def)
  then have e: "set (live_nodes (tiles s)) \<union> set (tilePool s) = {0..<length (heap s)}"
    by simp
  show "n \<in> set (live_nodes (tiles s)) \<Longrightarrow> n < length (heap s)"
    using e by auto
  show "n \<in> set (tilePool s) \<Longrightarrow> n < length (heap s)"
    using e by auto
qed

lemma take_tile_valid:
  assumes "conserved s" "take_tile fx fy tex s = (t, s1)"
  shows "t < length (heap s1)"
proof (cases "tile_at (tiles s) fx fy")
  case (Some n)
  with assms(2) have "t = n" "heap s1 = heap s" by (auto simp: take_tile_def)
  with conserved_ids(1) [OF assms(1) tile_at_live [OF Some]] show ?thesis by simp
next
  case None
  show ?thesis
  proof (cases "tilePool s = []")
    case True
    with None assms(2) show ?thesis by (auto simp: take_tile_def)
  next
    case False
    with None assms(2) have "t = last (tilePool s)" "heap s1 = heap s"
      by (auto simp: take_tile_def)
    with conserved_ids(2) [OF assms(1), of t] False show ?thesis by simp
  qed
qed

lemma moveTileSprite_bound:
  assumes r: "resolve m s tx ty = Some (tileId, ts)" and c: "conserved s"
  shows "\<exists>n t0. tile_at (tiles (moveTileSprite m fx fy tx ty s)) tx ty = Some n
           \<and> n < length (heap (moveTileSprite m fx fy tx ty s))
           \<and> heap (moveTileSprite m fx fy tx ty s) ! n =
               bind_tile (getTileProperties ts tileId) (getTileTexture ts tileId)
                 (tile_position m ts tx ty)
                 (getInteractive m s (Some ts) (getTileProperties ts tileId))
                 (case hitArea (getTileProperties ts tileId) of Some h \<Rightarrow> Some h
                  | None \<Rightarrow> tileHitArea (ts_properties ts)) t0"
proof -
  obtain t s1 where ts: "take_tile fx fy (getTileTexture ts tileId) s = (t, s1)"
    by (cases "take_tile fx fy (getTileTexture ts tileId) s")
  from take_tile_valid [OF c ts] have "t < length (heap s1)" .
  with r ts show ?thesis
    by (simp add: moveTileSprite_def Let_def tile_at_set_entry upd_tile_def) blast
qed

lemma getInteractive_chain:
  "getInteractive m s (Some ts) p = first_defined [p, ts_properties ts, properties s, m_properties m]"
  by (simp add: getInteractive_def defines_interactive_def interactive_value_def
      split: option.splits)

lemma conserved_TiledLayer: "conserved (TiledLayer d p z)"
  by (simp add: conserved_def TiledLayer_def wf_grid_def)

text \<open>
  C7: the interactive flag of a binding is decided by the first of tile properties,
  tileset properties, layer properties and map properties that defines
  \<^verbatim>\<open>interactive\<close> or \<^verbatim>\<open>interactiveTiles\<close>; later sources are not consulted, and the
  flag is false when none defines it. The first part states it for
  \<^verbatim>\<open>_getInteractive\<close>, the second for the tile that \<^verbatim>\<open>moveTileSprite\<close> binds.
\<close>

theorem interactive_first_defined_wins:
  "getInteractive m s (Some ts) p =
     first_defined [p, ts_properties ts, properties s, m_properties m]
   \<and> (conserved s \<and> resolve m s toTileX toTileY = Some (tileId, ts) \<longrightarrow>
        (\<exists>n. tile_at (tiles (moveTileSprite m fromTileX fromTileY toTileX toTileY s))
                toTileX toTileY = Some n
           \<and> t_interactive (heap (moveTileSprite m fromTileX fromTileY toTileX toTileY s) ! n) =
               first_defined [getTileProperties ts tileId, ts_properties ts,
                              properties s, m_properties m]))"
proof (intro conjI impI)
  show "getInteractive m s (Some ts) p =
     first_defined [p, ts_properties ts, properties s, m_properties m]"
    by (rule getInteractive_chain)
next
  assume a: "conserved s \<and> resolve m s toTileX toTileY = Some (tileId, ts)"
  from moveTileSprite_bound [of m s toTileX toTileY tileId ts fromTileX fromTileY] a
  obtain n t0 where
    "tile_at (tiles (moveTileSprite m fromTileX fromTileY toTileX toTileY s)) toTileX toTileY
       = Some n"
    "heap (moveTileSprite m fromTileX fromTileY toTileX toTileY s) ! n =
       bind_tile (getTileProperties ts tileId) (getTileTexture ts tileId)
         (tile_position m ts toTileX toTileY)
         (getInteractive m s (Some ts) (getTileProperties ts tileId))
         (case hitArea (getTileProperties ts tileId) of Some h \<Rightarrow> Some h
          | None \<Rightarrow> tileHitArea (ts_properties ts)) t0"
    by blast
  then show "\<exists>n. tile_at (tiles (moveTileSprite m fromTileX fromTileY toTileX toTileY s))
                toTileX toTileY = Some n
           \<and> t_interactive (heap (moveTileSprite m fromTileX fromTileY toTileX toTileY s) ! n) =
               first_defined [getTileProperties ts tileId, ts_properties ts,
                              properties s, m_properties m]"
    by (simp add: getInteractive_chain)
qed

lemma resolve_touch: "resolve touch_map touch_layer 0 0 = Some (1, touch_tileset)"
  by (simp add: resolve_def lookup_id_def touch_map_def plain_map_def touch_layer_def
      TiledLayer_def)

theorem interactive_first_defined_wins_witness:
  "getInteractive (touch_map\<lparr>m_properties := touch_props\<rparr>) touch_layer (Some plain_tileset)
      (no_props\<lparr>interactiveTiles := Some False\<rparr>) = False
   \<and> (\<exists>n. tile_at (tiles (moveTileSprite touch_map 0 0 0 0 touch_layer)) 0 0 = Some n
         \<and> t_interactive (heap (moveTileSprite touch_map 0 0 0 0 touch_layer) ! n) = True)"
proof -
  have c: "conserved touch_layer"
    unfolding touch_layer_def by (rule conserved_TiledLayer)
  have v: "first_defined [getTileProperties touch_tileset 1, ts_properties touch_tileset,
                          properties touch_layer, m_properties touch_map] = True"
    by (simp add: touch_tileset_def touch_props_def no_props_def)
  have w: "first_defined [no_props\<lparr>interactiveTiles := Some False\<rparr>,
             ts_properties plain_tileset, properties touch_layer,
             m_properties (touch_map\<lparr>m_properties := touch_props\<rparr>)] = False"
    by (simp add: no_props_def)
  from interactive_first_defined_wins
    [where m = touch_map and s = touch_layer and ts = touch_tileset and toTileX = 0
       and toTileY = 0 and tileId = 1 and fromTileX = 0 and fromTileY = 0]
    c resolve_touch
  have "\<exists>n. tile_at (tiles (moveTileSprite touch_map 0 0 0 0 touch_layer)) 0 0 = Some n
         \<and> t_interactive (heap (moveTileSprite touch_map 0 0 0 0 touch_layer) ! n) = True"
    unfolding v by blast
  moreover from interactive_first_defined_wins
    [where m = "touch_map\<lparr>m_properties := touch_props\<rparr>" and s = touch_layer
       and ts = plain_tileset and p = "no_props\<lparr>interactiveTiles := Some False\<rparr>"]
  have "getInteractive (touch_map\<lparr>m_properties := touch_props\<rparr>) touch_layer
      (Some plain_tileset) (no_props\<lparr>interactiveTiles := Some False\<rparr>) = False"
    unfolding w by blast
  ultimately show ?thesis by blast
qed

text \<open>
  C8: on an isometric map, the tile bound at \<open>(toTileX, toTileY)\<close> is placed at
  \<open>pixelX = (toTileX - toTileY) * (tileWidth / 2) + (tileWidth - tilesetTileWidth) +
  tilesetOffsetX\<close> and \<open>pixelY = (toTileX + toTileY) * (tileHeight / 2) + (tileHeight -
  tilesetTileHeight) + tilesetOffsetY\<close>, the tile size being the map's.
\<close>

theorem isometric_projection:
  assumes "orientation m = ''isometric''"
    and "resolve m s toTileX toTileY = Some (tileId, ts)"
    and "conserved s"
  shows "\<exists>n. tile_at (tiles (moveTileSprite m fromTileX fromTileY toTileX toTileY s))
               toTileX toTileY = Some n
          \<and> position (heap (moveTileSprite m fromTileX fromTileY toTileX toTileY s) ! n) =
              ((of_int toTileX - of_int toTileY) * (of_int (fst (tileSize m)) / 2)
                 + (of_int (fst (tileSize m)) - of_int (fst (ts_tileSize ts)))
                 + of_int (fst (tileoffset ts)),
               (of_int toTileX + of_int toTileY) * (of_int (snd (tileSize m)) / 2)
                 + (of_int (snd (tileSize m)) - of_int (snd (ts_tileSize ts)))
                 + of_int (snd (tileoffset ts)))"
proof -
  from moveTileSprite_bound [OF assms(2,3), where fx = fromTileX and fy = fromTileY]
  obtain n t0 where
    "tile_at (tiles (moveTileSprite m fromTileX fromTileY toTileX toTileY s)) toTileX toTileY
       = Some n"
    "position (heap (moveTileSprite m fromTileX fromTileY toTileX toTileY s) ! n)
       = tile_position m ts toTileX toTileY"
    by (metis bind_tile_fields(2))
  with assms(1) show ?thesis
    by (simp add: tile_position_def left_diff_distrib distrib_right)
qed

lemma resolve_iso:
  "resolve iso_map plain_layer 2 1 = Some (1, iso_tileset)"
  "resolve iso_map plain_layer 1 0 = Some (1, iso_tileset)"
  by (simp_all add: resolve_def lookup_id_def iso_map_def plain_layer_def TiledLayer_def)

lemma conserved_plain_layer: "conserved plain_layer"
  unfolding plain_layer_def by (rule conserved_TiledLayer)

theorem isometric_projection_witness:
  "orientation iso_map = ''isometric''
   \<and> resolve iso_map plain_layer 2 1 = Some (1, iso_tileset)
   \<and> (\<exists>n. tile_at (tiles (moveTileSprite iso_map 0 0 2 1 plain_layer)) 2 1 = Some n
         \<and> position (heap (moveTileSprite iso_map 0 0 2 1 plain_layer) ! n) = (32, 48))"
proof -
  have o: "orientation iso_map = ''isometric''"
    by (simp add: iso_map_def)
  have r: "resolve iso_map plain_layer 2 1 = Some (1, iso_tileset)"
    by (simp add: resolve_iso)
  from isometric_projection [OF o r conserved_plain_layer, of 0 0] o r show ?thesis
    by (simp add: iso_map_def iso_tileset_def plain_tileset_def)
qed

text \<open>
  C9, as amended: under isometric projection with map tile size (64, 32), tileset tile
  size (64, 32) and tileset offset (0, 0), the tile bound at coordinate (1, 0) is placed
  at pixel position (32, 16).
\<close>

theorem scenario_C_position:
  assumes "orientation m = ''isometric''" and "tileSize m = (64, 32)"
    and "resolve m s 1 0 = Some (tileId, ts)"
    and "ts_tileSize ts = (64, 32)" and "tileoffset ts = (0, 0)"
    and "conserved s"
  shows "\<exists>n. tile_at (tiles (moveTileSprite m fromTileX fromTileY 1 0 s)) 1 0 = Some n
          \<and> position (heap (moveTileSprite m fromTileX fromTileY 1 0 s) ! n) = (32, 16)"
proof -
  from moveTileSprite_bound [OF assms(3,6), where fx = fromTileX and fy = fromTileY]
  obtain n t0 where
    "tile_at (tiles (moveTileSprite m fromTileX fromTileY 1 0 s)) 1 0 = Some n"
    "position (heap (moveTileSprite m fromTileX fromTileY 1 0 s) ! n) = tile_position m ts 1 0"
    by (metis bind_tile_fields(2))
  with assms(1,2,4,5) show ?thesis
    by (simp add: tile_position_def)
qed

theorem scenario_C_position_witness:
  "orientation iso_map = ''isometric'' \<and> tileSize iso_map = (64, 32)
   \<and> resolve iso_map plain_layer 1 0 = Some (1, iso_tileset)
   \<and> ts_tileSize iso_tileset = (64, 32) \<and> tileoffset iso_tileset = (0, 0)
   \<and> (\<exists>n. tile_at (tiles (moveTileSprite iso_map (- 1) (- 1) 1 0 plain_layer)) 1 0 = Some n
         \<and> position (heap (moveTileSprite iso_map (- 1) (- 1) 1 0 plain_layer) ! n) = (32, 16))"
proof -
  have o: "orientation iso_map = ''isometric''" and t: "tileSize iso_map = (64, 32)"
    by (simp_all add: iso_map_def)
  have r: "resolve iso_map plain_layer 1 0 = Some (1, iso_tileset)"
    by (simp add: resolve_iso)
  have z: "ts_tileSize iso_tileset = (64, 32)" and f: "tileoffset iso_tileset = (0, 0)"
    by (simp_all add: iso_tileset_def plain_tileset_def)
  from scenario_C_position [OF o t r z f conserved_plain_layer, of "- 1" "- 1"] o t r z f
  show ?thesis by simp
qed

theorem scenario_C_counterexample:
  "map position (heap (moveTileSprite iso_map 1 0 1 0 plain_layer)) = [(32, 16)]
   \<and> (32, 16) \<noteq> (64 :: rat, 16 :: rat)"
  by code_simp

subsection \<open>Shifts that rebind\<close>

lemma moveTileSprite_rebind:
  assumes "tile_at (tiles s) fx fy = Some n" "resolve m s tx ty \<noteq> None"
  shows "tilePool (moveTileSprite m fx fy tx ty s) = tilePool s"
    and "tile_at (tiles (moveTileSprite m fx fy tx ty s)) tx ty = Some n"
    and "length (heap (moveTileSprite m fx fy tx ty s)) = length (heap s)"
    and "children (moveTileSprite m fx fy tx ty s) = children s"
  using assms
  by (auto simp: moveTileSprite_def take_tile_def Let_def tile_at_set_entry)

lemma tile_at_moveTileSprite_other:
  assumes "(x, y) \<noteq> (fx, fy)" "(x, y) \<noteq> (tx, ty)"
  shows "tile_at (tiles (moveTileSprite m fx fy tx ty s)) x y = tile_at (tiles s) x y"
  using assms
  by (auto simp: moveTileSprite_def take_tile_def Let_def tile_at_set_entry
      split: option.splits prod.splits if_splits)

lemma fold_moves_untouched:
  assumes "(x, y) \<notin> fst ` set ps" "(x, y) \<notin> snd ` set ps"
  shows "tile_at (tiles (fold (move_pair m) ps s)) x y = tile_at (tiles s) x y"
  using assms
proof (induction ps arbitrary: s)
  case Nil
  then show ?case by simp
next
  case (Cons p ps)
  from Cons.prems have "(x, y) \<noteq> fst p" "(x, y) \<noteq> snd p"
    by auto
  then have "tile_at (tiles (move_pair m p s)) x y = tile_at (tiles s) x y"
    unfolding move_pair_def by (intro tile_at_moveTileSprite_other) auto
  moreover from Cons.prems have "(x, y) \<notin> fst ` set ps" "(x, y) \<notin> snd ` set ps"
    by auto
  ultimately show ?case
    using Cons.IH [of "move_pair m p s"] by simp
qed

lemma fold_moves_rebind:
  assumes "\<forall>p \<in> set ps. tile_at (tiles s) (fst (fst p)) (snd (fst p)) \<noteq> None
              \<and> resolve m s (fst (snd p)) (snd (snd p)) \<noteq> None"
    and "distinct (map fst ps)" "distinct (map snd ps)"
    and "\<forall>p \<in> set ps. \<forall>q \<in> set ps. fst p \<noteq> fst q \<longrightarrow> fst p \<noteq> snd q"
  shows "tilePool (fold (move_pair m) ps s) = tilePool s
       \<and> length (heap (fold (move_pair m) ps s)) = length (heap s)
       \<and> (\<forall>p \<in> set ps. tile_at (tiles (fold (move_pair m) ps s)) (fst (snd p)) (snd (snd p))
                          = tile_at (tiles s) (fst (fst p)) (snd (fst p)))"
  using assms
proof (induction ps arbitrary: s)
  case Nil
  then show ?case by simp
next
  case (Cons p ps)
  obtain fx fy tx ty where p: "p = ((fx, fy), (tx, ty))"
    by (metis prod.collapse)
  let ?s1 = "move_pair m p s"
  from Cons.prems(1) p obtain n where n: "tile_at (tiles s) fx fy = Some n"
    and r: "resolve m s tx ty \<noteq> None"
    by auto
  note rb = moveTileSprite_rebind [OF n r]
  have same: "tile_at (tiles ?s1) (fst (fst q)) (snd (fst q))
              = tile_at (tiles s) (fst (fst q)) (snd (fst q))" if "q \<in> set ps" for q
  proof -
    from that Cons.prems(2) have "fst q \<noteq> fst p"
      by (metis distinct.simps(2) image_eqI list.simps(9) set_map)
    moreover from this that Cons.prems(4) have "fst q \<noteq> snd p" by simp
    ultimately show ?thesis
      unfolding move_pair_def p
      by (intro tile_at_moveTileSprite_other) (auto simp: p prod_eq_iff)
  qed
  have 1: "\<forall>q \<in> set ps. tile_at (tiles ?s1) (fst (fst q)) (snd (fst q)) \<noteq> None
              \<and> resolve m ?s1 (fst (snd q)) (snd (snd q)) \<noteq> None"
    using Cons.prems(1) same by (simp add: move_pair_def)
  from Cons.prems have 2: "distinct (map fst ps)" "distinct (map snd ps)"
    "\<forall>p \<in> set ps. \<forall>q \<in> set ps. fst p \<noteq> fst q \<longrightarrow> fst p \<noteq> snd q"
    by simp_all
  note ih = Cons.IH [OF 1 2]
  have "(tx, ty) \<notin> fst ` set ps"
  proof
    assume "(tx, ty) \<in> fst ` set ps"
    then obtain q where q: "q \<in> set ps" "fst q = (tx, ty)"
      by auto
    from q(1) Cons.prems(2) have "fst q \<noteq> fst p"
      by (metis distinct.simps(2) image_eqI list.simps(9) set_map)
    with q(1) Cons.prems(4) have "fst q \<noteq> snd p" by simp
    with q(2) p show False by simp
  qed
  moreover have "(tx, ty) \<notin> snd ` set ps"
    using Cons.prems(3) p by force
  ultimately have "tile_at (tiles (fold (move_pair m) ps ?s1)) tx ty = tile_at (tiles ?s1) tx ty"
    by (rule fold_moves_untouched)
  with rb(2) n have head: "tile_at (tiles (fold (move_pair m) ps ?s1)) tx ty
                           = tile_at (tiles s) fx fy"
    by (simp add: move_pair_def p)
  have pool: "tilePool ?s1 = tilePool s" and hp: "length (heap ?s1) = length (heap s)"
    using rb(1,3) by (simp_all add: move_pair_def p)
  have f: "fold (move_pair m) (p # ps) s = fold (move_pair m) ps ?s1"
    by simp
  from ih pool hp same head show ?case
    unfolding f by (simp add: p)
qed


lemma renderLeft_rebind:
  assumes live: "\<forall>i. 0 \<le> i \<and> i < r_height (rendered s) \<longrightarrow>
      tile_at (tiles s) (r_right (rendered s)) (r_top (rendered s) + i) \<noteq> None
      \<and> resolve m s (r_left (rendered s) - 1) (r_top (rendered s) + i) \<noteq> None"
  shows "tilePool (renderLeft m False s) = tilePool s
    \<and> length (heap (renderLeft m False s)) = length (heap s)
    \<and> (\<forall>i. 0 \<le> i \<and> i < r_height (rendered s) \<longrightarrow>
         tile_at (tiles (renderLeft m False s)) (r_left (rendered s) - 1) (r_top (rendered s) + i)
         = tile_at (tiles s) (r_right (rendered s)) (r_top (rendered s) + i))"
proof -
  let ?ps = "left_pairs False (rendered s)"
  have 1: "\<forall>p \<in> set ?ps. tile_at (tiles s) (fst (fst p)) (snd (fst p)) \<noteq> None
              \<and> resolve m s (fst (snd p)) (snd (snd p)) \<noteq> None"
    using live by (auto simp: left_pairs_def)
  have 2: "distinct (map fst ?ps)"
    by (simp add: left_pairs_def distinct_map comp_def inj_on_def)
  have 3: "\<forall>p \<in> set ?ps. \<forall>q \<in> set ?ps. fst p \<noteq> fst q \<longrightarrow> fst p \<noteq> snd q"
    by (auto simp: left_pairs_def)
  from fold_moves_rebind [OF 1 2 left_pairs_distinct 3]
  have "tilePool (fold (move_pair m) ?ps s) = tilePool s"
    and "length (heap (fold (move_pair m) ?ps s)) = length (heap s)"
    and "\<forall>p \<in> set ?ps. tile_at (tiles (fold (move_pair m) ?ps s)) (fst (snd p)) (snd (snd p))
                          = tile_at (tiles s) (fst (fst p)) (snd (fst p))"
    by blast+
  then show ?thesis
    by (simp add: renderLeft_fold) (simp add: left_pairs_def)
qed

lemma renderRight_rebind:
  assumes live: "\<forall>i. 0 \<le> i \<and> i < r_height (rendered s) \<longrightarrow>
      tile_at (tiles s) (r_left (rendered s)) (r_top (rendered s) + i) \<noteq> None
      \<and> resolve m s (r_right (rendered s) + 1) (r_top (rendered s) + i) \<noteq> None"
  shows "tilePool (renderRight m False s) = tilePool s
    \<and> length (heap (renderRight m False s)) = length (heap s)
    \<and> (\<forall>i. 0 \<le> i \<and> i < r_height (rendered s) \<longrightarrow>
         tile_at (tiles (renderRight m False s)) (r_right (rendered s) + 1) (r_top (rendered s) + i)
         = tile_at (tiles s) (r_left (rendered s)) (r_top (rendered s) + i))"
proof -
  let ?ps = "right_pairs False (rendered s)"
  have 1: "\<forall>p \<in> set ?ps. tile_at (tiles s) (fst (fst p)) (snd (fst p)) \<noteq> None
              \<and> resolve m s (fst (snd p)) (snd (snd p)) \<noteq> None"
    using live by (auto simp: right_pairs_def)
  have 2: "distinct (map fst ?ps)"
    by (simp add: right_pairs_def distinct_map comp_def inj_on_def)
  have 3: "\<forall>p \<in> set ?ps. \<forall>q \<in> set ?ps. fst p \<noteq> fst q \<longrightarrow> fst p \<noteq> snd q"
    by (auto simp: right_pairs_def)
  from fold_moves_rebind [OF 1 2 right_pairs_distinct 3]
  have "tilePool (fold (move_pair m) ?ps s) = tilePool s"
    and "length (heap (fold (move_pair m) ?ps s)) = length (heap s)"
    and "\<forall>p \<in> set ?ps. tile_at (tiles (fold (move_pair m) ?ps s)) (fst (snd p)) (snd (snd p))
                          = tile_at (tiles s) (fst (fst p)) (snd (fst p))"
    by blast+
  then show ?thesis
    by (simp add: renderRight_fold) (simp add: right_pairs_def)
qed

lemma renderUp_rebind:
  assumes live: "\<forall>i. 0 \<le> i \<and> i < r_width (rendered s) \<longrightarrow>
      tile_at (tiles s) (r_left (rendered s) + i) (r_bottom (rendered s)) \<noteq> None
      \<and> resolve m s (r_left (rendered s) + i) (r_top (rendered s) - 1) \<noteq> None"
  shows "tilePool (renderUp m False s) = tilePool s
    \<and> length (heap (renderUp m False s)) = length (heap s)
    \<and> (\<forall>i. 0 \<le> i \<and> i < r_width (rendered s) \<longrightarrow>
         tile_at (tiles (renderUp m False s)) (r_left (rendered s) + i) (r_top (rendered s) - 1)
         = tile_at (tiles s) (r_left (rendered s) + i) (r_bottom (rendered s)))"
proof -
  let ?ps = "up_pairs False (rendered s)"
  have 1: "\<forall>p \<in> set ?ps. tile_at (tiles s) (fst (fst p)) (snd (fst p)) \<noteq> None
              \<and> resolve m s (fst (snd p)) (snd (snd p)) \<noteq> None"
    using live by (auto simp: up_pairs_def)
  have 2: "distinct (map fst ?ps)"
    by (simp add: up_pairs_def distinct_map comp_def inj_on_def)
  have 3: "\<forall>p \<in> set ?ps. \<forall>q \<in> set ?ps. fst p \<noteq> fst q \<longrightarrow> fst p \<noteq> snd q"
    by (auto simp: up_pairs_def)
  from fold_moves_rebind [OF 1 2 up_pairs_distinct 3]
  have "tilePool (fold (move_pair m) ?ps s) = tilePool s"
    and "length (heap (fold (move_pair m) ?ps s)) = length (heap s)"
    and "\<forall>p \<in> set ?ps. tile_at (tiles (fold (move_pair m) ?ps s)) (fst (snd p)) (snd (snd p))
                          = tile_at (tiles s) (fst (fst p)) (snd (fst p))"
    by blast+
  then show ?thesis
    by (simp add: renderUp_fold) (simp add: up_pairs_def)
qed

lemma renderDown_rebind:
  assumes live: "\<forall>i. 0 \<le> i \<and> i < r_width (rendered s) \<longrightarrow>
      tile_at (tiles s) (r_left (rendered s) + i) (r_top (rendered s)) \<noteq> None
      \<and> resolve m s (r_left (rendered s) + i) (r_bottom (rendered s) + 1) \<noteq> None"
  shows "tilePool (renderDown m False s) = tilePool s
    \<and> length (heap (renderDown m False s)) = length (heap s)
    \<and> (\<forall>i. 0 \<le> i \<and> i < r_width (rendered s) \<longrightarrow>
         tile_at (tiles (renderDown m False s)) (r_left (rendered s) + i) (r_bottom (rendered s) + 1)
         = tile_at (tiles s) (r_left (rendered s) + i) (r_top (rendered s)))"
proof -
  let ?ps = "down_pairs False (rendered s)"
  have 1: "\<forall>p \<in> set ?ps. tile_at (tiles s) (fst (fst p)) (snd (fst p)) \<noteq> None
              \<and> resolve m s (fst (snd p)) (snd (snd p)) \<noteq> None"
    using live by (auto simp: down_pairs_def)
  have 2: "distinct (map fst ?ps)"
    by (simp add: down_pairs_def distinct_map comp_def inj_on_def)
  have 3: "\<forall>p \<in> set ?ps. \<forall>q \<in> set ?ps. fst p \<noteq> fst q \<longrightarrow> fst p \<noteq> snd q"
    by (auto simp: down_pairs_def)
  from fold_moves_rebind [OF 1 2 down_pairs_distinct 3]
  have "tilePool (fold (move_pair m) ?ps s) = tilePool s"
    and "length (heap (fold (move_pair m) ?ps s)) = length (heap s)"
    and "\<forall>p \<in> set ?ps. tile_at (tiles (fold (move_pair m) ?ps s)) (fst (snd p)) (snd (snd p))
                          = tile_at (tiles s) (fst (fst p)) (snd (fst p))"
    by blast+
  then show ?thesis
    by (simp add: renderDown_fold) (simp add: down_pairs_def)
qed


lemma add_pan_fields [simp]:
  "tilePool (add_panX d s) = tilePool s" "tilePool (add_panY d s) = tilePool s"
  "tiles (add_panX d s) = tiles s" "tiles (add_panY d s) = tiles s"
  "heap (add_panX d s) = heap s" "heap (add_panY d s) = heap s"
  "rendered (add_panX d s) = rendered s" "rendered (add_panY d s) = rendered s"
  "l_buffered (add_panX d s) = l_buffered s" "l_buffered (add_panY d s) = l_buffered s"
  by (simp_all add: add_panX_def add_panY_def)

text \<open>
  C10: when the departing coordinate holds a live tile and the tile id at the entering
  coordinate resolves to a tileset, \<^verbatim>\<open>moveTileSprite\<close> binds that very tile to the
  entering coordinate and neither pops nor pushes the pool (first part). Hence a
  threshold shift of \<^verbatim>\<open>pan\<close> (the body of one of its four loops) in which this holds
  for every row (or column) of the window leaves the pool as it was and carries each
  departing tile over to its entering coordinate (the four other parts: right, left,
  up, down).
\<close>

theorem shift_rebinds_without_pool:
  "(tile_at (tiles s) fromTileX fromTileY = Some n \<and> resolve m s toTileX toTileY \<noteq> None \<longrightarrow>
      tilePool (moveTileSprite m fromTileX fromTileY toTileX toTileY s) = tilePool s
      \<and> tile_at (tiles (moveTileSprite m fromTileX fromTileY toTileX toTileY s))
           toTileX toTileY = Some n
      \<and> length (heap (moveTileSprite m fromTileX fromTileY toTileX toTileY s))
           = length (heap s))
   \<and> ((\<forall>i. 0 \<le> i \<and> i < r_height (rendered s) \<longrightarrow>
          tile_at (tiles s) (r_left (rendered s)) (r_top (rendered s) + i) \<noteq> None
          \<and> resolve m s (r_right (rendered s) + 1) (r_top (rendered s) + i) \<noteq> None) \<longrightarrow>
      tilePool (add_panX (fst (scaledTileSize m)) (renderRight m False s)) = tilePool s
      \<and> (\<forall>i. 0 \<le> i \<and> i < r_height (rendered s) \<longrightarrow>
           tile_at (tiles (add_panX (fst (scaledTileSize m)) (renderRight m False s)))
             (r_right (rendered s) + 1) (r_top (rendered s) + i)
           = tile_at (tiles s) (r_left (rendered s)) (r_top (rendered s) + i)))
   \<and> ((\<forall>i. 0 \<le> i \<and> i < r_height (rendered s) \<longrightarrow>
          tile_at (tiles s) (r_right (rendered s)) (r_top (rendered s) + i) \<noteq> None
          \<and> resolve m s (r_left (rendered s) - 1) (r_top (rendered s) + i) \<noteq> None) \<longrightarrow>
      tilePool (add_panX (- fst (scaledTileSize m)) (renderLeft m False s)) = tilePool s
      \<and> (\<forall>i. 0 \<le> i \<and> i < r_height (rendered s) \<longrightarrow>
           tile_at (tiles (add_panX (- fst (scaledTileSize m)) (renderLeft m False s)))
             (r_left (rendered s) - 1) (r_top (rendered s) + i)
           = tile_at (tiles s) (r_right (rendered s)) (r_top (rendered s) + i)))
   \<and> ((\<forall>i. 0 \<le> i \<and> i < r_width (rendered s) \<longrightarrow>
          tile_at (tiles s) (r_left (rendered s) + i) (r_bottom (rendered s)) \<noteq> None
          \<and> resolve m s (r_left (rendered s) + i) (r_top (rendered s) - 1) \<noteq> None) \<longrightarrow>
      tilePool (add_panY (- snd (scaledTileSize m)) (renderUp m False s)) = tilePool s
      \<and> (\<forall>i. 0 \<le> i \<and> i < r_width (rendered s) \<longrightarrow>
           tile_at (tiles (add_panY (- snd (scaledTileSize m)) (renderUp m False s)))
             (r_left (rendered s) + i) (r_top (rendered s) - 1)
           = tile_at (tiles s) (r_left (rendered s) + i) (r_bottom (rendered s))))
   \<and> ((\<forall>i. 0 \<le> i \<and> i < r_width (rendered s) \<longrightarrow>
          tile_at (tiles s) (r_left (rendered s) + i) (r_top (rendered s)) \<noteq> None
          \<and> resolve m s (r_left (rendered s) + i) (r_bottom (rendered s) + 1) \<noteq> None) \<longrightarrow>
      tilePool (add_panY (snd (scaledTileSize m)) (renderDown m False s)) = tilePool s
      \<and> (\<forall>i. 0 \<le> i \<and> i < r_width (rendered s) \<longrightarrow>
           tile_at (tiles (add_panY (snd (scaledTileSize m)) (renderDown m False s)))
             (r_left (rendered s) + i) (r_bottom (rendered s) + 1)
           = tile_at (tiles s) (r_left (rendered s) + i) (r_top (rendered s))))"
proof (intro conjI impI; (elim conjE)?)
  assume "tile_at (tiles s) fromTileX fromTileY = Some n" "resolve m s toTileX toTileY \<noteq> None"
  note rb = moveTileSprite_rebind [OF this]
  show "tilePool (moveTileSprite m fromTileX fromTileY toTileX toTileY s) = tilePool s"
    by (rule rb)
  show "tile_at (tiles (moveTileSprite m fromTileX fromTileY toTileX toTileY s))
           toTileX toTileY = Some n"
    by (rule rb)
  show "length (heap (moveTileSprite m fromTileX fromTileY toTileX toTileY s)) = length (heap s)"
    by (rule rb)
qed (simp_all add: renderRight_rebind renderLeft_rebind renderUp_rebind renderDown_rebind)


lemma renderTiles_frame [simp]:
  "tileIds (renderTiles m sx sy nx ny s) = tileIds s"
  "l_size (renderTiles m sx sy nx ny s) = l_size s"
  "properties (renderTiles m sx sy nx ny s) = properties s"
  by (simp_all add: renderTiles_fold)

lemma resolve_frame:
  "tileIds t = tileIds s \<Longrightarrow> l_size t = l_size s \<Longrightarrow> resolve m t = resolve m s"
  by (simp add: resolve_def fun_eq_iff)

lemma resolve_plain_all:
  "resolve plain_map plain_layer x y =
     (if 0 \<le> x + y * 4 \<and> x + y * 4 < 16 then Some (1, plain_tileset) else None)"
  by (auto simp: resolve_def lookup_id_def plain_map_def plain_layer_def TiledLayer_def
      nat_less_iff)

theorem shift_rebinds_without_pool_witness:
  "tile_at (tiles (renderTiles plain_map 1 1 2 2 plain_layer)) 1 1 = Some 0
   \<and> resolve plain_map (renderTiles plain_map 1 1 2 2 plain_layer) 3 1 \<noteq> None
   \<and> tilePool (moveTileSprite plain_map 1 1 3 1 (renderTiles plain_map 1 1 2 2 plain_layer))
       = tilePool (renderTiles plain_map 1 1 2 2 plain_layer)
   \<and> tile_at (tiles (moveTileSprite plain_map 1 1 3 1
         (renderTiles plain_map 1 1 2 2 plain_layer))) 3 1 = Some 0
   \<and> tilePool (add_panX 32 (renderRight plain_map False
         (renderTiles plain_map 1 1 2 2 plain_layer)))
       = tilePool (renderTiles plain_map 1 1 2 2 plain_layer)"
proof -
  let ?s = "renderTiles plain_map 1 1 2 2 plain_layer"
  have r: "rendered ?s = \<lparr>r_x = 1, r_y = 1, r_width = 2, r_height = 2,
                           r_left = 1, r_right = 2, r_top = 1, r_bottom = 2\<rparr>"
    by (simp add: renderTiles_fold startOf_def endOf_def plain_map_def updateRenderSq_def
        plain_layer_def TiledLayer_def)
  have res: "resolve plain_map ?s = resolve plain_map plain_layer"
    by (rule resolve_frame) simp_all
  have t: "tile_at (tiles ?s) 1 1 = Some 0" "tile_at (tiles ?s) 1 2 = Some 1"
    by code_simp+
  have rr: "resolve plain_map ?s 3 1 \<noteq> None" "resolve plain_map ?s 3 2 \<noteq> None"
    by (simp_all add: res resolve_plain_all)
  have col: "\<forall>i. 0 \<le> i \<and> i < r_height (rendered ?s) \<longrightarrow>
          tile_at (tiles ?s) (r_left (rendered ?s)) (r_top (rendered ?s) + i) \<noteq> None
          \<and> resolve plain_map ?s (r_right (rendered ?s) + 1) (r_top (rendered ?s) + i) \<noteq> None"
  proof (intro allI impI)
    fix i :: int
    assume "0 \<le> i \<and> i < r_height (rendered ?s)"
    then have "i = 0 \<or> i = 1" by (auto simp: r)
    with t rr show "tile_at (tiles ?s) (r_left (rendered ?s)) (r_top (rendered ?s) + i) \<noteq> None
          \<and> resolve plain_map ?s (r_right (rendered ?s) + 1) (r_top (rendered ?s) + i) \<noteq> None"
      by (auto simp: r)
  qed
  have sz: "fst (scaledTileSize plain_map) = 32"
    by (simp add: plain_map_def)
  from shift_rebinds_without_pool
    [where s = ?s and m = plain_map and fromTileX = 1 and fromTileY = 1 and n = 0
       and toTileX = 3 and toTileY = 1]
    t(1) rr(1) col
  show ?thesis
    unfolding sz by blast
qed

subsection \<open>Release\<close>

lemma free_tile_heap:
  assumes "n < length (heap s)"
  shows "visible (heap (free_tile k s) ! n) = (n \<noteq> k \<and> visible (heap s ! n))"
    and "physics (heap (free_tile k s) ! n) = (n \<noteq> k \<and> physics (heap s ! n))"
    and "handlers (heap (free_tile k s) ! n) = handlers (heap s ! n)"
    and "t_interactive (heap (free_tile k s) ! n) = t_interactive (heap s ! n)"
  using assms by (auto simp: free_tile_def upd_tile_def nth_list_update)

lemma fold_free_tile_heap:
  assumes "n < length (heap s)"
  shows "visible (heap (fold free_tile ns s) ! n) = (n \<notin> set ns \<and> visible (heap s ! n))
    \<and> physics (heap (fold free_tile ns s) ! n) = (n \<notin> set ns \<and> physics (heap s ! n))
    \<and> handlers (heap (fold free_tile ns s) ! n) = handlers (heap s ! n)
    \<and> t_interactive (heap (fold free_tile ns s) ! n) = t_interactive (heap s ! n)"
  using assms
proof (induction ns arbitrary: s)
  case Nil
  then show ?case by simp
next
  case (Cons k ns)
  then have "n < length (heap (free_tile k s))"
    by (simp add: free_tile_def)
  from Cons.IH [OF this] Cons.prems show ?case
    by (auto simp: free_tile_heap)
qed

lemma heap_clearTiles: "heap (clearTiles s) = heap (fold free_tile (live_nodes (tiles s)) s)"
  by (simp add: clearTiles_fold)

text \<open>
  C5, as amended: a tile released to the pool, by \<^verbatim>\<open>clearTiles\<close> or by
  \<^verbatim>\<open>moveTileSprite\<close> when the target tile id has no tileset, is hidden, taken out of
  the grid and pushed on the pool; \<^verbatim>\<open>clearTiles\<close> also disables its physics. Neither
  release touches the tile's pointer callbacks or its interactive flag: they stay as
  the last binding left them.
\<close>

theorem release_hides_and_pools:
  "tilePool (clearTiles s) = tilePool s @ live_nodes (tiles s)
   \<and> tile_at (tiles (clearTiles s)) x y = None
   \<and> (n \<in> set (live_nodes (tiles s)) \<and> n < length (heap s) \<longrightarrow>
        \<not> visible (heap (clearTiles s) ! n) \<and> \<not> physics (heap (clearTiles s) ! n)
        \<and> handlers (heap (clearTiles s) ! n) = handlers (heap s ! n)
        \<and> t_interactive (heap (clearTiles s) ! n) = t_interactive (heap s ! n))
   \<and> (tile_at (tiles s) fromTileX fromTileY = Some n \<and> n < length (heap s)
        \<and> resolve m s toTileX toTileY = None \<longrightarrow>
        tilePool (moveTileSprite m fromTileX fromTileY toTileX toTileY s) = tilePool s @ [n]
        \<and> tile_at (tiles (moveTileSprite m fromTileX fromTileY toTileX toTileY s))
             fromTileX fromTileY = None
        \<and> \<not> visible (heap (moveTileSprite m fromTileX fromTileY toTileX toTileY s) ! n)
        \<and> handlers (heap (moveTileSprite m fromTileX fromTileY toTileX toTileY s) ! n)
            = handlers (heap s ! n)
        \<and> t_interactive (heap (moveTileSprite m fromTileX fromTileY toTileX toTileY s) ! n)
            = t_interactive (heap s ! n))"
  by (simp add: heap_clearTiles fold_free_tile_heap moveTileSprite_unresolved tile_at_set_entry
      upd_tile_def)

theorem release_hides_and_pools_witness:
  "0 \<in> set (live_nodes (tiles (renderTiles touch_map 0 0 1 1 touch_layer)))
   \<and> 0 < length (heap (renderTiles touch_map 0 0 1 1 touch_layer))
   \<and> tilePool (clearTiles (renderTiles touch_map 0 0 1 1 touch_layer)) = [0]
   \<and> \<not> visible (heap (clearTiles (renderTiles touch_map 0 0 1 1 touch_layer)) ! 0)
   \<and> \<not> physics (heap (clearTiles (renderTiles touch_map 0 0 1 1 touch_layer)) ! 0)
   \<and> tile_at (tiles (renderTiles touch_map 0 0 1 1 touch_layer)) 0 0 = Some 0
   \<and> resolve touch_map (renderTiles touch_map 0 0 1 1 touch_layer) 1 0 = None
   \<and> tilePool (moveTileSprite touch_map 0 0 1 0 (renderTiles touch_map 0 0 1 1 touch_layer))
       = [0]
   \<and> \<not> visible (heap (moveTileSprite touch_map 0 0 1 0
           (renderTiles touch_map 0 0 1 1 touch_layer)) ! 0)"
proof -
  let ?s = "renderTiles touch_map 0 0 1 1 touch_layer"
  have a: "live_nodes (tiles ?s) = [0]" "length (heap ?s) = 1" "tilePool ?s = []"
    "tile_at (tiles ?s) 0 0 = Some 0"
    by code_simp+
  have "resolve touch_map ?s = resolve touch_map touch_layer"
    by (rule resolve_frame) simp_all
  then have r: "resolve touch_map ?s 1 0 = None"
    by (simp add: resolve_def lookup_id_def touch_layer_def TiledLayer_def touch_map_def
        plain_map_def)
  from release_hides_and_pools
    [where s = ?s and n = 0 and m = touch_map and fromTileX = 0 and fromTileY = 0
       and toTileX = 1 and toTileY = 0]
    a r
  show ?thesis by simp
qed

theorem release_counterexample:
  "map (\<lambda>t. (visible t, physics t, handlers t))
     (heap (renderTiles touch_map 0 0 1 1 touch_layer)) = [(True, True, True)]
   \<and> tilePool (clearTiles (renderTiles touch_map 0 0 1 1 touch_layer)) = [0]
   \<and> map (\<lambda>t. (visible t, physics t, handlers t))
     (heap (clearTiles (renderTiles touch_map 0 0 1 1 touch_layer))) = [(False, False, True)]
   \<and> tilePool (moveTileSprite touch_map 0 0 1 0 (renderTiles touch_map 0 0 1 1 touch_layer))
       = [0]
   \<and> map (\<lambda>t. (visible t, physics t, handlers t))
     (heap (moveTileSprite touch_map 0 0 1 0 (renderTiles touch_map 0 0 1 1 touch_layer)))
       = [(False, True, True)]"
  by code_simp

subsection \<open>Rebuilding twice\<close>

lemma length_live_nodes_insert:
  assumes "tile_at g x y = None"
  shows "length (live_nodes (set_entry g x y (Some n))) = Suc (length (live_nodes g))"
proof -
  from live_nodes_insert [OF assms, of n]
  have "size (mset (live_nodes (set_entry g x y (Some n)))) = size (add_mset n (mset (live_nodes g)))"
    by simp
  then show ?thesis by simp
qed

lemma moveTileSprite_in_place:
  assumes "tile_at (tiles s) x y = None"
  shows "length (tilePool (moveTileSprite m x y x y s))
           = length (tilePool s) - (if resolve m s x y = None then 0 else 1)"
    and "length (live_nodes (tiles (moveTileSprite m x y x y s)))
           = length (live_nodes (tiles s)) + (if resolve m s x y = None then 0 else 1)"
  using assms
  by (auto simp: moveTileSprite_def take_tile_def Let_def length_live_nodes_insert)

lemma fold_in_place:
  assumes "distinct cs" "\<forall>c \<in> set cs. \<not> occupied s c"
  shows "length (tilePool (fold (move_pair m) (map (\<lambda>c. (c, c)) cs) s))
           = length (tilePool s) - length (filter (resolves m s) cs)
       \<and> length (live_nodes (tiles (fold (move_pair m) (map (\<lambda>c. (c, c)) cs) s)))
           = length (live_nodes (tiles s)) + length (filter (resolves m s) cs)
       \<and> (\<forall>c. occupied (fold (move_pair m) (map (\<lambda>c. (c, c)) cs) s) c
               = (if c \<in> set cs then resolves m s c else occupied s c))"
  using assms
proof (induction cs arbitrary: s)
  case Nil
  then show ?case by simp
next
  case (Cons a cs)
  let ?s1 = "move_pair m (a, a) s"
  from Cons.prems(2) have free: "tile_at (tiles s) (fst a) (snd a) = None"
    by (simp add: occupied_def)
  note step = moveTileSprite_in_place [OF free, of m]
  have occ: "occupied ?s1 c = (if c = a then resolves m s a else occupied s c)" for c
    using Cons.prems(2)
    by (auto simp: move_pair_def occupied_moveTileSprite resolves_def)
  have res: "resolves m ?s1 = resolves m s"
    by (simp add: resolves_def fun_eq_iff move_pair_def)
  have 1: "\<forall>c \<in> set cs. \<not> occupied ?s1 c"
    using Cons.prems by (auto simp: occ)
  from Cons.prems(1) have 2: "distinct cs" by simp
  from Cons.IH [OF 2 1, unfolded res] step Cons.prems(1) occ show ?case
    by (auto simp: move_pair_def resolves_def)
qed

lemma resolves_frame:
  "tileIds t = tileIds s \<Longrightarrow> l_size t = l_size s \<Longrightarrow> resolves m t = resolves m s"
  using resolve_frame [of t s m] by (simp add: resolves_def fun_eq_iff)

lemma renderTiles_counts:
  fixes m sx sy nx ny
  defines "cs \<equiv> List.product [startOf sx..endOf sx nx (fst (m_size m)) - 1]
                              [startOf sy..endOf sy ny (snd (m_size m)) - 1]"
  shows "length (tilePool (renderTiles m sx sy nx ny s))
           = length (tilePool s) + length (live_nodes (tiles s))
               - length (filter (resolves m s) cs)"
    and "length (live_nodes (tiles (renderTiles m sx sy nx ny s)))
           = length (filter (resolves m s) cs)"
    and "occupied (renderTiles m sx sy nx ny s) c = (c \<in> set cs \<and> resolves m s c)"
proof -
  have d: "distinct cs"
    unfolding cs_def by (simp add: distinct_product)
  have f: "\<forall>c \<in> set cs. \<not> occupied (clearTiles s) c"
    by simp
  have r: "resolves m (clearTiles s) = resolves m s"
    by (rule resolves_frame) simp_all
  note fp = fold_in_place [OF d f, of m, unfolded r]
  have e: "renderTiles m sx sy nx ny s =
     (fold (move_pair m) (map (\<lambda>c. (c, c)) cs) (clearTiles s))
       \<lparr>rendered := updateRenderSq
          ((rendered s)\<lparr>r_x := startOf sx, r_y := startOf sy,
             r_width := endOf sx nx (fst (m_size m)) - startOf sx,
             r_height := endOf sy ny (snd (m_size m)) - startOf sy\<rparr>),
        l_buffered := \<lparr>b_left = False, b_right = False, b_top = False, b_bottom = False\<rparr>,
        panDelta := (js_rem (fst (m_position m)) (fst (scaledTileSize m)),
                     js_rem (snd (m_position m)) (snd (scaledTileSize m)))\<rparr>"
    unfolding cs_def by (simp add: renderTiles_fold same_pairs_def)
  from fp show "length (tilePool (renderTiles m sx sy nx ny s))
           = length (tilePool s) + length (live_nodes (tiles s))
               - length (filter (resolves m s) cs)"
    unfolding e by simp
  from fp show "length (live_nodes (tiles (renderTiles m sx sy nx ny s)))
           = length (filter (resolves m s) cs)"
    unfolding e by simp
  from fp have "occupied (fold (move_pair m) (map (\<lambda>c. (c, c)) cs) (clearTiles s)) c
      = (if c \<in> set cs then resolves m s c else occupied (clearTiles s) c)"
    by blast
  then show "occupied (renderTiles m sx sy nx ny s) c = (c \<in> set cs \<and> resolves m s c)"
    unfolding e by simp
qed

text \<open>
  C6: a second \<^verbatim>\<open>renderTiles\<close> call with the arguments of the first leaves the pool
  as long as the first left it and the same coordinates occupied, each by one tile.
\<close>

theorem renderTiles_idempotent:
  "length (tilePool (renderTiles m startX startY numX numY
             (renderTiles m startX startY numX numY s)))
     = length (tilePool (renderTiles m startX startY numX numY s))
   \<and> (\<forall>x y. (tile_at (tiles (renderTiles m startX startY numX numY
                   (renderTiles m startX startY numX numY s))) x y \<noteq> None)
            = (tile_at (tiles (renderTiles m startX startY numX numY s)) x y \<noteq> None))
   \<and> length (live_nodes (tiles (renderTiles m startX startY numX numY
               (renderTiles m startX startY numX numY s))))
     = length (live_nodes (tiles (renderTiles m startX startY numX numY s)))"
proof -
  let ?s1 = "renderTiles m startX startY numX numY s"
  have r: "resolves m ?s1 = resolves m s"
    by (rule resolves_frame) simp_all
  have "(tile_at (tiles (renderTiles m startX startY numX numY ?s1)) x y \<noteq> None)
            = (tile_at (tiles ?s1) x y \<noteq> None)" for x y
    using renderTiles_counts(3) [of m startX startY numX numY ?s1 "(x, y)"]
      renderTiles_counts(3) [of m startX startY numX numY s "(x, y)"]
    unfolding r by (simp add: occupied_def)
  then show ?thesis
    by (simp add: renderTiles_counts r)
qed

theorem renderTiles_idempotent_witness:
  "length (tilePool (renderTiles plain_map 0 0 2 2 (renderTiles plain_map 0 0 2 2
      (renderTiles plain_map 0 0 3 3 plain_layer)))) = 5
   \<and> length (tilePool (renderTiles plain_map 0 0 2 2
      (renderTiles plain_map 0 0 3 3 plain_layer))) = 5
   \<and> length (live_nodes (tiles (renderTiles plain_map 0 0 2 2 (renderTiles plain_map 0 0 2 2
      (renderTiles plain_map 0 0 3 3 plain_layer))))) = 4"
proof -
  have "length (tilePool (renderTiles plain_map 0 0 2 2
      (renderTiles plain_map 0 0 3 3 plain_layer))) = 5"
    "length (live_nodes (tiles (renderTiles plain_map 0 0 2 2
      (renderTiles plain_map 0 0 3 3 plain_layer)))) = 4"
    by code_simp+
  with renderTiles_idempotent [of plain_map 0 0 2 2 "renderTiles plain_map 0 0 3 3 plain_layer"]
  show ?thesis by simp
qed

subsection \<open>Panning before rendering\<close>

text \<open>
  C4, as amended: a \<^verbatim>\<open>pan\<close> call made on the freshly constructed layer is not
  rejected; it runs on the constructor's empty window. With positive tile sizes and a
  delta below one tile on both axes, it leaves the grid, the pool and the set of tiles
  as they were (empty) and adds the delta to the accumulator, and, unless both deltas
  are zero, it marks the exposed edge as buffered and grows the rectangle by one column
  or row.
\<close>

theorem pan_before_renderTiles:
  assumes "0 < fst (scaledTileSize m)" and "0 < snd (scaledTileSize m)"
    and "\<bar>dx\<bar> < fst (scaledTileSize m)" and "\<bar>dy\<bar> < snd (scaledTileSize m)"
  shows "\<exists>s'. pan m dx dy (TiledLayer d p z) = Some s'
     \<and> tiles s' = [] \<and> tilePool s' = [] \<and> heap s' = []
     \<and> panDelta s' = (Num dx, Num dy)
     \<and> l_buffered s' = \<lparr>b_left = (0 < dx), b_right = (dx < 0),
                          b_top = (dx = 0 \<and> 0 < dy), b_bottom = (dx = 0 \<and> dy < 0)\<rparr>
     \<and> r_x (rendered s') = (if 0 < dx then - 1 else 0)
     \<and> r_y (rendered s') = (if dx = 0 \<and> 0 < dy then - 1 else 0)
     \<and> r_width (rendered s') = (if dx \<noteq> 0 then 1 else 0)
     \<and> r_height (rendered s') = (if dx = 0 \<and> dy \<noteq> 0 then 1 else 0)"
proof -
  let ?s0 = "pan_buffer m dx dy (add_panY dy (add_panX dx (TiledLayer d p z)))"
  have b: "tiles ?s0 = [] \<and> tilePool ?s0 = [] \<and> heap ?s0 = []
     \<and> panDelta ?s0 = (Num dx, Num dy)
     \<and> l_buffered ?s0 = \<lparr>b_left = (0 < dx), b_right = (dx < 0),
                          b_top = (dx = 0 \<and> 0 < dy), b_bottom = (dx = 0 \<and> dy < 0)\<rparr>
     \<and> r_x (rendered ?s0) = (if 0 < dx then - 1 else 0)
     \<and> r_y (rendered ?s0) = (if dx = 0 \<and> 0 < dy then - 1 else 0)
     \<and> r_width (rendered ?s0) = (if dx \<noteq> 0 then 1 else 0)
     \<and> r_height (rendered ?s0) = (if dx = 0 \<and> dy \<noteq> 0 then 1 else 0)"
    by (simp add: pan_buffer_def add_panX_def add_panY_def TiledLayer_def renderLeft_fold
        renderRight_fold renderUp_fold renderDown_fold left_pairs_def right_pairs_def
        up_pairs_def down_pairs_def)
  then have pd: "panDelta ?s0 = (Num dx, Num dy)" by simp
  from assms have n: "\<not> fst (scaledTileSize m) \<le> dx" "\<not> dx \<le> - fst (scaledTileSize m)"
    "\<not> snd (scaledTileSize m) \<le> dy" "\<not> dy \<le> - snd (scaledTileSize m)"
    by linarith+
  from n have 1: "pan_while_left m ?s0 = Some ?s0"
    by (subst pan_while_left.simps) (simp add: pd)
  from n have 2: "pan_while_right m ?s0 = Some ?s0"
    by (subst pan_while_right.simps) (simp add: pd)
  from n have 3: "pan_while_up m ?s0 = Some ?s0"
    by (subst pan_while_up.simps) (simp add: pd)
  from n have 4: "pan_while_down m ?s0 = Some ?s0"
    by (subst pan_while_down.simps) (simp add: pd)
  have "pan m dx dy (TiledLayer d p z) = Some ?s0"
    by (simp add: pan_def 1 2 3 4)
  with b show ?thesis by simp
qed

theorem pan_before_renderTiles_witness:
  "0 < fst (scaledTileSize plain_map) \<and> 0 < snd (scaledTileSize plain_map)
   \<and> \<bar>1\<bar> < fst (scaledTileSize plain_map) \<and> \<bar>0\<bar> < snd (scaledTileSize plain_map)
   \<and> (\<exists>s'. pan plain_map 1 0 plain_layer = Some s'
         \<and> tiles s' = [] \<and> tilePool s' = [] \<and> heap s' = []
         \<and> panDelta s' = (Num 1, Num 0)
         \<and> l_buffered s' = \<lparr>b_left = True, b_right = False, b_top = False, b_bottom = False\<rparr>
         \<and> r_x (rendered s') = - 1 \<and> r_y (rendered s') = 0
         \<and> r_width (rendered s') = 1 \<and> r_height (rendered s') = 0)"
proof -
  have a: "0 < fst (scaledTileSize plain_map)" "0 < snd (scaledTileSize plain_map)"
    "\<bar>1\<bar> < fst (scaledTileSize plain_map)" "\<bar>0\<bar> < snd (scaledTileSize plain_map)"
    by (simp_all add: plain_map_def)
  from pan_before_renderTiles [OF a, of "replicate 16 1" no_props "(4, 4)"] a
  show ?thesis
    by (simp add: plain_layer_def)
qed

theorem pan_before_renderTiles_counterexample:
  "(r_x (rendered plain_layer), r_width (rendered plain_layer), b_left (l_buffered plain_layer))
     = (0, 0, False)
   \<and> map_option (\<lambda>s. (r_x (rendered s), r_width (rendered s), b_left (l_buffered s)))
       (pan plain_map 1 0 plain_layer) = Some (- 1, 1, True)"
  by code_simp

subsection \<open>Panning by whole tiles\<close>

lemma renderLeft_rect [simp]:
  "r_x (rendered (renderLeft m f s)) = r_x (rendered s) - 1"
  "r_y (rendered (renderLeft m f s)) = r_y (rendered s)"
  "r_width (rendered (renderLeft m f s)) = (if f then r_width (rendered s) + 1 else r_width (rendered s))"
  "r_height (rendered (renderLeft m f s)) = r_height (rendered s)"
  "rect_ok (rendered (renderLeft m f s))"
  by (simp_all add: renderLeft_fold)

lemma panDelta_add_pan [simp]:
  "panDelta (add_panX d s) = (num_add (fst (panDelta s)) d, snd (panDelta s))"
  "panDelta (add_panY d s) = (fst (panDelta s), num_add (snd (panDelta s)) d)"
  by (simp_all add: add_panX_def add_panY_def)

lemma pan_buffer_panDelta [simp]: "panDelta (pan_buffer m dx dy s) = panDelta s"
  by (simp add: pan_buffer_def)

lemma num_add_zero [simp]: "num_add v 0 = v"
  by (cases v) simp_all

lemma js_rem_small:
  assumes "0 < b"
  shows "\<not> num_ge (js_rem a b) b" "\<not> num_le (js_rem a b) (- b)"
proof -
  from assms have "0 \<le> \<bar>a\<bar> mod \<bar>b\<bar>" "\<bar>a\<bar> mod \<bar>b\<bar> < b"
    by simp_all
  then have "\<bar>sgn a * (\<bar>a\<bar> mod \<bar>b\<bar>)\<bar> < b"
    by (simp add: abs_mult abs_sgn_eq)
  with assms show "\<not> num_ge (js_rem a b) b" "\<not> num_le (js_rem a b) (- b)"
    by (simp_all add: js_rem_def)
qed

lemma pan_one_tile_left:
  assumes sz: "scaledTileSize m = (32, th)"
    and pd: "panDelta s = (Num 0, v)" and v: "\<not> num_ge v th" "\<not> num_le v (- th)"
  shows "\<exists>s'. pan m 32 0 s = Some s'
     \<and> panDelta s' = (Num 0, v) \<and> b_left (l_buffered s')
     \<and> r_x (rendered s') = r_x (rendered s) - (if b_left (l_buffered s) then 1 else 2)
     \<and> r_width (rendered s') = r_width (rendered s) + (if b_left (l_buffered s) then 0 else 1)
     \<and> r_y (rendered s') = r_y (rendered s) \<and> r_height (rendered s') = r_height (rendered s)
     \<and> rect_ok (rendered s')"
proof -
  let ?s0 = "pan_buffer m 32 0 (add_panY 0 (add_panX 32 s))"
  let ?t = "add_panX (- 32) (renderLeft m False ?s0)"
  have p0: "panDelta ?s0 = (Num 32, v)"
    by (simp add: pd)
  have pt: "panDelta ?t = (Num 0, v)"
    by (simp add: pd)
  have "pan_while_left m ?t = Some ?t"
    by (subst pan_while_left.simps) (simp add: pd sz)
  then have 1: "pan_while_left m ?s0 = Some ?t"
    by (subst pan_while_left.simps) (simp add: pd sz)
  have 2: "pan_while_right m ?t = Some ?t"
    by (subst pan_while_right.simps) (simp add: pd sz)
  from v have 3: "pan_while_up m ?t = Some ?t"
    by (subst pan_while_up.simps) (simp add: pd sz)
  from v have 4: "pan_while_down m ?t = Some ?t"
    by (subst pan_while_down.simps) (simp add: pd sz)
  have "pan m 32 0 s = Some ?t"
    by (simp add: pan_def 1 2 3 4)
  moreover have "b_left (l_buffered ?t)
     \<and> r_x (rendered ?t) = r_x (rendered s) - (if b_left (l_buffered s) then 1 else 2)
     \<and> r_width (rendered ?t) = r_width (rendered s) + (if b_left (l_buffered s) then 0 else 1)
     \<and> r_y (rendered ?t) = r_y (rendered s) \<and> r_height (rendered ?t) = r_height (rendered s)
     \<and> rect_ok (rendered ?t)"
    by (simp add: pan_buffer_def)
  ultimately show ?thesis
    using pt by simp
qed

lemma pans_tiles_left:
  assumes sz: "scaledTileSize m = (32, th)"
    and pd: "panDelta s = (Num 0, v)" and v: "\<not> num_ge v th" "\<not> num_le v (- th)"
    and b: "b_left (l_buffered s)" and ok: "rect_ok (rendered s)"
  shows "\<exists>s'. pans m (replicate k (32, 0)) s = Some s'
     \<and> panDelta s' = (Num 0, v)
     \<and> r_x (rendered s') = r_x (rendered s) - int k
     \<and> r_width (rendered s') = r_width (rendered s)
     \<and> rect_ok (rendered s')"
  using pd b ok
proof (induction k arbitrary: s)
  case 0
  then show ?case by simp
next
  case (Suc k)
  from pan_one_tile_left [OF sz Suc.prems(1) v] Suc.prems(2)
  obtain t where t: "pan m 32 0 s = Some t" "panDelta t = (Num 0, v)" "b_left (l_buffered t)"
    "r_x (rendered t) = r_x (rendered s) - 1" "r_width (rendered t) = r_width (rendered s)"
    "rect_ok (rendered t)"
    by auto
  from Suc.IH [OF t(2,3,6)] t(1,4,5) show ?case
    by auto
qed

lemma pans_after_renderTiles:
  assumes sz: "scaledTileSize m = (32, th)" and th: "0 < th"
    and acc: "js_rem (fst (m_position m)) 32 = Num 0"
    and big: "10 \<le> fst (m_size m)" "10 \<le> snd (m_size m)"
  shows "\<exists>s'. pans m (replicate (Suc k) (32, 0)) (renderTiles m 0 0 10 10 s) = Some s'
     \<and> fst (panDelta s') = Num 0
     \<and> r_x (rendered s') = - int k - 2
     \<and> r_width (rendered s') = 11
     \<and> r_right (rendered s') = 8 - int k"
proof -
  let ?s1 = "renderTiles m 0 0 10 10 s"
  let ?v = "js_rem (snd (m_position m)) th"
  have pd: "panDelta ?s1 = (Num 0, ?v)"
    by (simp add: renderTiles_fold sz acc)
  have r: "r_x (rendered ?s1) = 0" "r_width (rendered ?s1) = 10" "\<not> b_left (l_buffered ?s1)"
    using big by (simp_all add: renderTiles_fold startOf_def endOf_def)
  note v = js_rem_small [OF th, of "snd (m_position m)"]
  from pan_one_tile_left [OF sz pd v] r
  obtain t where t: "pan m 32 0 ?s1 = Some t" "panDelta t = (Num 0, ?v)" "b_left (l_buffered t)"
    "r_x (rendered t) = - 2" "r_width (rendered t) = 11" "rect_ok (rendered t)"
    by auto
  from pans_tiles_left [OF sz t(2) v t(3,6), of k]
  obtain s' where s': "pans m (replicate k (32, 0)) t = Some s'" "panDelta s' = (Num 0, ?v)"
    "r_x (rendered s') = - 2 - int k" "r_width (rendered s') = 11" "rect_ok (rendered s')"
    using t(4,5) by auto
  with t(1) show ?thesis
    by (simp add: rect_ok_def)
qed

text \<open>
  C3, as amended: from \<^verbatim>\<open>renderTiles(0, 0, 10, 10)\<close> on a map of at least 10 by 10
  tiles, with scaled tile width 32 and pixel accumulator 0, \<open>k \<ge> 1\<close> calls of
  \<^verbatim>\<open>pan(32, 0)\<close> shift the rendered window to the left: the first call also buffers
  one column on the left, so the width is 11, the window's x is \<open>- k - 1\<close> and its right
  edge is \<open>9 - k\<close>; after ten calls x is \<open>- 11\<close>. The accumulator \<^verbatim>\<open>panX\<close> is 0
  after each call.
\<close>

theorem pan_whole_tiles_shifts_left:
  assumes "scaledTileSize m = (32, th)" and "0 < th"
    and "js_rem (fst (m_position m)) 32 = Num 0"
    and "10 \<le> fst (m_size m)" and "10 \<le> snd (m_size m)"
    and "1 \<le> k"
  shows "r_x (rendered (renderTiles m 0 0 10 10 s)) = 0
     \<and> r_width (rendered (renderTiles m 0 0 10 10 s)) = 10
     \<and> fst (panDelta (renderTiles m 0 0 10 10 s)) = Num 0
     \<and> (\<exists>s'. pans m (replicate k (32, 0)) (renderTiles m 0 0 10 10 s) = Some s'
           \<and> fst (panDelta s') = Num 0
           \<and> r_x (rendered s') = - int k - 1
           \<and> r_width (rendered s') = 11
           \<and> r_right (rendered s') = 9 - int k)"
proof -
  from assms(6) obtain j where k: "k = Suc j"
    by (cases k) simp_all
  from pans_after_renderTiles [OF assms(1-5), of j s]
  obtain s' where "pans m (replicate k (32, 0)) (renderTiles m 0 0 10 10 s) = Some s'"
    "fst (panDelta s') = Num 0" "r_x (rendered s') = - int j - 2"
    "r_width (rendered s') = 11" "r_right (rendered s') = 8 - int j"
    unfolding k by blast
  then have "\<exists>s'. pans m (replicate k (32, 0)) (renderTiles m 0 0 10 10 s) = Some s'
           \<and> fst (panDelta s') = Num 0
           \<and> r_x (rendered s') = - int k - 1
           \<and> r_width (rendered s') = 11
           \<and> r_right (rendered s') = 9 - int k"
    by (simp add: k)
  moreover from assms(3,4,5) have "r_x (rendered (renderTiles m 0 0 10 10 s)) = 0
     \<and> r_width (rendered (renderTiles m 0 0 10 10 s)) = 10
     \<and> fst (panDelta (renderTiles m 0 0 10 10 s)) = Num 0"
    by (simp add: renderTiles_fold startOf_def endOf_def assms(1))
  ultimately show ?thesis by blast
qed

lemma wide_map_facts:
  "scaledTileSize wide_map = (32, 32)" "js_rem (fst (m_position wide_map)) 32 = Num 0"
  "10 \<le> fst (m_size wide_map)" "10 \<le> snd (m_size wide_map)"
  by (simp_all add: wide_map_def plain_map_def js_rem_def)

theorem pan_whole_tiles_shifts_left_witness:
  "scaledTileSize wide_map = (32, 32) \<and> js_rem (fst (m_position wide_map)) 32 = Num 0
   \<and> 10 \<le> fst (m_size wide_map) \<and> 10 \<le> snd (m_size wide_map)
   \<and> r_x (rendered (renderTiles wide_map 0 0 10 10 wide_layer)) = 0
   \<and> (\<exists>s'. pans wide_map (replicate 10 (32, 0)) (renderTiles wide_map 0 0 10 10 wide_layer)
             = Some s'
         \<and> fst (panDelta s') = Num 0 \<and> r_x (rendered s') = - 11
         \<and> r_width (rendered s') = 11 \<and> r_right (rendered s') = - 1)"
  using pan_whole_tiles_shifts_left [OF wide_map_facts(1) _ wide_map_facts(2,3,4), of 10 wide_layer]
    wide_map_facts
  by simp

theorem pan_whole_tiles_counterexample:
  "r_x (rendered (renderTiles wide_map 0 0 10 10 wide_layer)) = 0
   \<and> map_option (\<lambda>s. (r_x (rendered s), r_width (rendered s), fst (panDelta s)))
       (pans wide_map (replicate 10 (32, 0)) (renderTiles wide_map 0 0 10 10 wide_layer))
     = Some (- 11, 11, Num 0)"
proof -
  have ten: "replicate 10 (32 :: int, 0 :: int) = replicate (Suc 9) (32, 0)"
    by (simp add: eval_nat_numeral)
  from pans_after_renderTiles [OF wide_map_facts(1) _ wide_map_facts(2,3,4), of 9 wide_layer]
  obtain s' where
    "pans wide_map (replicate 10 (32, 0)) (renderTiles wide_map 0 0 10 10 wide_layer) = Some s'"
    "fst (panDelta s') = Num 0" "r_x (rendered s') = - 11" "r_width (rendered s') = 11"
    unfolding ten by auto
  moreover have "r_x (rendered (renderTiles wide_map 0 0 10 10 wide_layer)) = 0"
    by (simp add: renderTiles_fold startOf_def)
  ultimately show ?thesis by simp
qed

subsection \<open>The window contains the live tiles\<close>

text \<open>
  C1, as amended: after a \<^verbatim>\<open>renderTiles\<close> call whose clamped window has at least one
  column and one row, and after each of any following \<^verbatim>\<open>pan\<close> calls (tile sizes
  positive), every coordinate with a live tile lies in the rendered rectangle. After
  the \<^verbatim>\<open>renderTiles\<close> call the rectangle lies in the map: \<open>0 \<le> x\<close>, \<open>0 \<le> y\<close>,
  \<open>x + width \<le> mapWidth\<close>, \<open>y + height \<le> mapHeight\<close>; \<^verbatim>\<open>pan\<close> does not clamp, and
  nothing is said of the map bounds after it.
\<close>

theorem window_containment:
  assumes "0 < fst (scaledTileSize m)" and "0 < snd (scaledTileSize m)"
    and "1 \<le> r_width (rendered (renderTiles m startX startY numX numY s))"
    and "1 \<le> r_height (rendered (renderTiles m startX startY numX numY s))"
  shows "0 \<le> r_x (rendered (renderTiles m startX startY numX numY s))
     \<and> 0 \<le> r_y (rendered (renderTiles m startX startY numX numY s))
     \<and> r_x (rendered (renderTiles m startX startY numX numY s))
         + r_width (rendered (renderTiles m startX startY numX numY s)) \<le> fst (m_size m)
     \<and> r_y (rendered (renderTiles m startX startY numX numY s))
         + r_height (rendered (renderTiles m startX startY numX numY s)) \<le> snd (m_size m)
     \<and> (\<exists>s'. pans m ds (renderTiles m startX startY numX numY s) = Some s' \<and> contained s')"
proof -
  have "window_inv (renderTiles m startX startY numX numY s)"
    using assms(3,4) by (rule window_inv_renderTiles)
  with pans_rule [of window_inv m "renderTiles m startX startY numX numY s" ds]
    pan_window_inv [OF assms(1,2)]
  have "\<exists>s'. pans m ds (renderTiles m startX startY numX numY s) = Some s' \<and> window_inv s'"
    by blast
  then have "\<exists>s'. pans m ds (renderTiles m startX startY numX numY s) = Some s' \<and> contained s'"
    by (auto simp: window_inv_def)
  with renderTiles_bounds [of m startX startY numX numY s] show ?thesis
    by blast
qed

lemma plain_window:
  "rendered (renderTiles plain_map 0 0 2 2 s) =
     \<lparr>r_x = 0, r_y = 0, r_width = 2, r_height = 2,
      r_left = 0, r_right = 1, r_top = 0, r_bottom = 1\<rparr>"
  by (simp add: renderTiles_fold startOf_def endOf_def plain_map_def updateRenderSq_def)

theorem window_containment_witness:
  "0 < fst (scaledTileSize plain_map) \<and> 0 < snd (scaledTileSize plain_map)
   \<and> 1 \<le> r_width (rendered (renderTiles plain_map 0 0 2 2 plain_layer))
   \<and> 1 \<le> r_height (rendered (renderTiles plain_map 0 0 2 2 plain_layer))
   \<and> r_x (rendered (renderTiles plain_map 0 0 2 2 plain_layer))
       + r_width (rendered (renderTiles plain_map 0 0 2 2 plain_layer)) \<le> fst (m_size plain_map)
   \<and> (\<exists>s'. pans plain_map [(1, 0), (- 40, 33)] (renderTiles plain_map 0 0 2 2 plain_layer)
             = Some s' \<and> contained s')"
proof -
  have a: "0 < fst (scaledTileSize plain_map)" "0 < snd (scaledTileSize plain_map)"
    by (simp_all add: plain_map_def)
  have b: "1 \<le> r_width (rendered (renderTiles plain_map 0 0 2 2 plain_layer))"
    "1 \<le> r_height (rendered (renderTiles plain_map 0 0 2 2 plain_layer))"
    by (simp_all add: plain_window)
  from window_containment [OF a b, of "[(1, 0), (- 40, 33)]"] a b show ?thesis
    by blast
qed

theorem window_containment_counterexample:
  "map_option (\<lambda>s. r_x (rendered s))
     (pans plain_map [(1, 0)] (renderTiles plain_map 0 0 2 2 plain_layer)) = Some (- 1)
   \<and> map_option (\<lambda>s. (tile_at (tiles s) 0 0, r_y (rendered s), r_height (rendered s)))
     (pans plain_map [(1, 32)] (renderTiles plain_map 0 1 2 0 plain_layer))
       = Some (Some 0, 0, 0)"
  by code_simp

subsection \<open>Conservation\<close>

lemma conserved_exactly_once:
  assumes "conserved s"
  shows "distinct (live_nodes (tiles s) @ tilePool s)"
    and "set (live_nodes (tiles s)) \<union> set (tilePool s) = {0..<length (heap s)}"
    and "length (live_nodes (tiles s)) + length (tilePool s) = length (heap s)"
    and "n \<in> set (live_nodes (tiles s)) \<longleftrightarrow> (\<exists>x y. tile_at (tiles s) x y = Some n)"
proof -
  from assms have e: "mset (live_nodes (tiles s) @ tilePool s) = mset [0..<length (heap s)]"
    by (simp add: conserved_def)
  from mset_eq_imp_distinct_iff [OF e] show "distinct (live_nodes (tiles s) @ tilePool s)"
    by simp
  from mset_eq_setD [OF e] show "set (live_nodes (tiles s)) \<union> set (tilePool s) = {0..<length (heap s)}"
    by simp
  from mset_eq_length [OF e] show "length (live_nodes (tiles s)) + length (tilePool s) = length (heap s)"
    by simp
  from assms have "wf_grid (tiles s)"
    by (simp add: conserved_def)
  then show "n \<in> set (live_nodes (tiles s)) \<longleftrightarrow> (\<exists>x y. tile_at (tiles s) x y = Some n)"
    using live_nodes_tile_at tile_at_live by blast
qed

lemma window_inv_clearTiles: "window_inv s \<Longrightarrow> window_inv (clearTiles s)"
  by (simp add: window_inv_def contained_def)

text \<open>
  C2, as amended. Conservation: every tile ever constructed is in exactly one of the
  live grid and the pool, and in it once, so the live and the pooled tiles together are
  as many as the constructed ones. It holds for the constructed layer and is kept by
  \<^verbatim>\<open>clearTiles\<close>, by \<^verbatim>\<open>renderTiles\<close>, by \<^verbatim>\<open>moveTileSprite\<close> when the target
  coordinate holds no live tile or is the source coordinate, and by \<^verbatim>\<open>pan\<close> (tile
  sizes positive) in a window of at least one column and one row that contains the live
  tiles; \<^verbatim>\<open>renderTiles\<close> with such a clamped window establishes that window, and
  \<^verbatim>\<open>pan\<close> and \<^verbatim>\<open>clearTiles\<close> keep it.
\<close>

theorem tiles_conserved:
  "conserved (TiledLayer d p z)
   \<and> (conserved s \<longrightarrow>
        distinct (live_nodes (tiles s) @ tilePool s)
        \<and> set (live_nodes (tiles s)) \<union> set (tilePool s) = {0..<length (heap s)}
        \<and> length (live_nodes (tiles s)) + length (tilePool s) = length (heap s)
        \<and> (\<forall>n. n \<in> set (live_nodes (tiles s)) \<longleftrightarrow> (\<exists>x y. tile_at (tiles s) x y = Some n)))
   \<and> (conserved s \<longrightarrow> conserved (clearTiles s))
   \<and> (conserved s \<longrightarrow> conserved (renderTiles m startX startY numX numY s))
   \<and> (conserved s \<and> (tile_at (tiles s) toTileX toTileY = None
                       \<or> (toTileX, toTileY) = (fromTileX, fromTileY)) \<longrightarrow>
        conserved (moveTileSprite m fromTileX fromTileY toTileX toTileY s))
   \<and> (conserved s \<and> window_inv s
        \<and> 0 < fst (scaledTileSize m) \<and> 0 < snd (scaledTileSize m) \<longrightarrow>
        (\<exists>s'. pan m dx dy s = Some s' \<and> conserved s' \<and> window_inv s'))
   \<and> (1 \<le> r_width (rendered (renderTiles m startX startY numX numY s))
        \<and> 1 \<le> r_height (rendered (renderTiles m startX startY numX numY s)) \<longrightarrow>
        window_inv (renderTiles m startX startY numX numY s))
   \<and> (window_inv s \<longrightarrow> window_inv (clearTiles s))"
proof (intro conjI impI)
  show "conserved (TiledLayer d p z)"
    by (rule conserved_TiledLayer)
  show "window_inv (clearTiles s)" if "window_inv s"
    using that by (rule window_inv_clearTiles)
  show "window_inv (renderTiles m startX startY numX numY s)"
    if "1 \<le> r_width (rendered (renderTiles m startX startY numX numY s))
        \<and> 1 \<le> r_height (rendered (renderTiles m startX startY numX numY s))"
    using that by (simp add: window_inv_renderTiles)
  show "\<exists>s'. pan m dx dy s = Some s' \<and> conserved s' \<and> window_inv s'"
    if "conserved s \<and> window_inv s \<and> 0 < fst (scaledTileSize m) \<and> 0 < snd (scaledTileSize m)"
    using pan_conserved [of m s dx dy] that by blast
  show "conserved (moveTileSprite m fromTileX fromTileY toTileX toTileY s)"
    if "conserved s \<and> (tile_at (tiles s) toTileX toTileY = None
                       \<or> (toTileX, toTileY) = (fromTileX, fromTileY))"
    using that by (intro conserved_moveTileSprite) simp_all
  show "distinct (live_nodes (tiles s) @ tilePool s)" if "conserved s"
    using that by (rule conserved_exactly_once)
  show "set (live_nodes (tiles s)) \<union> set (tilePool s) = {0..<length (heap s)}" if "conserved s"
    using that by (rule conserved_exactly_once)
  show "length (live_nodes (tiles s)) + length (tilePool s) = length (heap s)" if "conserved s"
    using that by (rule conserved_exactly_once)
  show "\<forall>n. n \<in> set (live_nodes (tiles s)) \<longleftrightarrow> (\<exists>x y. tile_at (tiles s) x y = Some n)"
    if "conserved s"
    using conserved_exactly_once(4) [OF that] by blast
  show "conserved (clearTiles s)" if "conserved s"
    using that by (rule conserved_clearTiles)
  show "conserved (renderTiles m startX startY numX numY s)" if "conserved s"
    using that by (rule conserved_renderTiles)
qed

theorem tiles_conserved_witness:
  "conserved plain_layer
   \<and> conserved (renderTiles plain_map 0 0 2 2 plain_layer)
   \<and> length (live_nodes (tiles (renderTiles plain_map 0 0 2 2 plain_layer)))
       + length (tilePool (renderTiles plain_map 0 0 2 2 plain_layer))
       = length (heap (renderTiles plain_map 0 0 2 2 plain_layer))
   \<and> conserved (clearTiles (renderTiles plain_map 0 0 2 2 plain_layer))
   \<and> tile_at (tiles (renderTiles plain_map 0 0 2 2 plain_layer)) 2 0 = None
   \<and> conserved (moveTileSprite plain_map 0 0 2 0 (renderTiles plain_map 0 0 2 2 plain_layer))
   \<and> window_inv (renderTiles plain_map 0 0 2 2 plain_layer)
   \<and> (\<exists>s'. pan plain_map 33 0 (renderTiles plain_map 0 0 2 2 plain_layer) = Some s'
         \<and> conserved s' \<and> window_inv s')
   \<and> window_inv (clearTiles (renderTiles plain_map 0 0 2 2 plain_layer))"
proof -
  let ?s = "renderTiles plain_map 0 0 2 2 plain_layer"
  note t = tiles_conserved [where m = plain_map and startX = 0 and startY = 0 and numX = 2
      and numY = 2 and dx = 33 and dy = 0 and fromTileX = 0 and fromTileY = 0
      and toTileX = 2 and toTileY = 0]
  from t [where s = plain_layer and d = "replicate 16 1" and p = no_props and z = "(4, 4)"]
  have c0: "conserved plain_layer" and c1: "conserved ?s"
    by (simp_all add: plain_layer_def)
  have sz: "0 < fst (scaledTileSize plain_map)" "0 < snd (scaledTileSize plain_map)"
    by (simp_all add: plain_map_def)
  have f: "tile_at (tiles ?s) 2 0 = None"
    by code_simp
  from t [where s = plain_layer] have w: "window_inv ?s"
    by (simp add: plain_window)
  from t [where s = ?s] c1 w sz f c0 show ?thesis
    by simp
qed

theorem tiles_conserved_counterexample:
  "census (renderTiles plain_map 0 0 2 1 plain_layer) = (2, 0, 2)
   \<and> tile_at (tiles (renderTiles plain_map 0 0 2 1 plain_layer)) 1 0 = Some 1
   \<and> census (moveTileSprite plain_map 0 0 1 0 (renderTiles plain_map 0 0 2 1 plain_layer))
       = (1, 0, 2)
   \<and> map_option census
       (pans plain_map [(1, 32), (0, 1), (0, - 33)] (renderTiles plain_map 0 1 2 0 plain_layer))
       = Some (5, 0, 7)"
  by code_simp

end
